theory Spec2Isabelle
  imports Complex_Main "HOL-Library.Char_ord" "HOL-Library.List_Lexorder" "HOL-Library.Multiset"
begin

section \<open>The TTL cache store (cache.ts)\<close>

text \<open>
  \<^verbatim>\<open>interface Cache<T> { data: T; timestamp: number; }\<close> and the class
  \<^verbatim>\<open>CacheStore<T>\<close> with its private \<^verbatim>\<open>Map<string, Cache<T>>\<close> and its
  \<^verbatim>\<open>ttl\<close>. Times are JavaScript numbers holding whole milliseconds
  (\<^verbatim>\<open>Date.now()\<close>); they are modelled as integers. The value that
  \<^verbatim>\<open>Date.now()\<close> returns inside a method is the explicit argument \<open>now\<close>.
\<close>

record 'a Cache =
  data :: 'a
  timestamp :: int

record 'a CacheStore =
  cache :: "string \<Rightarrow> 'a Cache option"
  ttl :: int

definition CACHE_TTL :: int where
  "CACHE_TTL = 5 * 60 * 1000"

definition new_CacheStore :: "int option \<Rightarrow> 'a CacheStore" where
  "new_CacheStore t =
     \<lparr>cache = Map.empty, ttl = (case t of None \<Rightarrow> CACHE_TTL | Some v \<Rightarrow> v)\<rparr>"

text \<open>
  \<^verbatim>\<open>get(key)\<close>: a missing entry returns null at once; an entry older than the TTL is
  deleted and null is returned; otherwise the stored data is returned. The result pairs
  the returned value (\<open>None\<close> for null) with the store after the call.
\<close>

definition get :: "int \<Rightarrow> 'a CacheStore \<Rightarrow> string \<Rightarrow> 'a option \<times> 'a CacheStore" where
  "get now c key =
     (case cache c key of
        None \<Rightarrow> (None, c)
      | Some cached \<Rightarrow>
          if now - timestamp cached > ttl c
          then (None, c\<lparr>cache := (cache c)(key := None)\<rparr>)
          else (Some (data cached), c))"

text \<open>\<^verbatim>\<open>set(key, data)\<close> stores the data with the current time.\<close>

definition set_entry :: "int \<Rightarrow> 'a CacheStore \<Rightarrow> string \<Rightarrow> 'a \<Rightarrow> 'a CacheStore" where
  "set_entry now c key d = c\<lparr>cache := (cache c)(key \<mapsto> \<lparr>data = d, timestamp = now\<rparr>)\<rparr>"

definition clear :: "'a CacheStore \<Rightarrow> 'a CacheStore" where
  "clear c = c\<lparr>cache := Map.empty\<rparr>"

section \<open>JavaScript numbers\<close>

text \<open>
  A JavaScript number is an IEEE 754 double. The finite doubles are modelled as the real
  numbers they denote, and every arithmetic operation as the exact operation followed
  by \<open>fl\<close>, rounding to the nearest double with ties to the even significand (53
  significant bits, exponents from \<open>-1022\<close>, subnormal numbers below).
  \<open>pow2 e\<close> is \<open>2\<close> to the power \<open>e\<close>, \<open>expo x\<close> the exponent \<open>e\<close> with
  \<open>2^e \<le> x < 2^(e+1)\<close> of a positive \<open>x\<close>, found by search from 0 (the search is long
  enough for every \<open>x\<close> below \<open>2^1100\<close>, and a smaller exponent than \<open>-1022\<close> is not
  needed).
\<close>

definition pow2 :: "int \<Rightarrow> real" where
  "pow2 e = (if 0 \<le> e then 2 ^ nat e else 1 / 2 ^ nat (- e))"

fun expo_search :: "nat \<Rightarrow> int \<Rightarrow> real \<Rightarrow> int" where
  "expo_search 0 e x = e"
| "expo_search (Suc n) e x =
     (if x < pow2 e then expo_search n (e - 1) x
      else if pow2 (e + 1) \<le> x then expo_search n (e + 1) x
      else e)"

definition expo :: "real \<Rightarrow> int" where
  "expo x = expo_search 1100 0 x"

definition round_even :: "real \<Rightarrow> int" where
  "round_even s =
     (let f = \<lfloor>s\<rfloor>; d = s - of_int f
      in if d < 1 / 2 then f else if d > 1 / 2 then f + 1 else if even f then f else f + 1)"

definition fl :: "real \<Rightarrow> real" where
  "fl x =
     (if x = 0 then 0
      else let e = max (expo \<bar>x\<bar>) (- 1022); u = pow2 (e - 52)
           in sgn x * (of_int (round_even (\<bar>x\<bar> / u)) * u))"


text \<open>
  The operators \<^verbatim>\<open>+\<close>, \<^verbatim>\<open>-\<close>, \<^verbatim>\<open>*\<close> and \<^verbatim>\<open>/\<close> where the operands are finite
  doubles, the divisor is not zero and the result is finite. This is so wherever they
  are used below: on counts (array lengths and counters), on the quotients and
  products of the score, and on millisecond timestamps and their sums.
\<close>

definition js_add :: "real \<Rightarrow> real \<Rightarrow> real" where
  "js_add x y = fl (x + y)"

definition js_sub :: "real \<Rightarrow> real \<Rightarrow> real" where
  "js_sub x y = fl (x - y)"

definition js_mul :: "real \<Rightarrow> real \<Rightarrow> real" where
  "js_mul x y = fl (x * y)"

definition js_div :: "real \<Rightarrow> real \<Rightarrow> real" where
  "js_div x y = fl (x / y)"

text \<open>
  A number that may not be finite. \<open>js_round x\<close> is the double for an exact value \<open>x\<close>:
  an infinity from \<open>2^1024 - 2^970\<close> on, halfway between the largest double and
  \<open>2^1024\<close>. \<open>js_divide\<close> is the operator \<^verbatim>\<open>/\<close> with any divisor that is not negative
  (an array length here): \<open>0 / 0\<close> is NaN, and a number that is not zero divided by zero
  is an infinity.
\<close>

datatype js_number = Num real | NaN | PlusInfinity | MinusInfinity

definition js_round :: "real \<Rightarrow> js_number" where
  "js_round x =
     (if pow2 1024 - pow2 970 \<le> x then PlusInfinity
      else if x \<le> - (pow2 1024 - pow2 970) then MinusInfinity
      else Num (fl x))"

definition js_divide :: "real \<Rightarrow> real \<Rightarrow> js_number" where
  "js_divide x y =
     (if y = 0 then (if x = 0 then NaN else if 0 < x then PlusInfinity else MinusInfinity)
      else js_round (x / y))"

section \<open>The GitHub client (test-client.ts): data and upstream calls\<close>

text \<open>
  The records of the REST API, with the fields the code reads. A user object is read
  only through its \<^verbatim>\<open>login\<close>, so a list of requested reviewers is the list of their
  logins; \<^verbatim>\<open>requested_reviewers\<close> may be null. Pull-request and review numbers are
  natural numbers.
\<close>

record PullRequest =
  pr_number :: nat
  pr_created_at :: string
  pr_user_login :: string
  pr_requested_reviewers :: "string list option"

record Review =
  rv_id :: nat
  rv_user_login :: "string option"
  rv_submitted_at :: "string option"

record File =
  filename :: string

record Comment =
  cm_id :: nat
  cm_user_login :: "string option"
  cm_body :: "string option"
  cm_created_at :: string
  cm_path :: string
  cm_line :: "int option"
  cm_commit_id :: string

record Member =
  m_login :: string
  m_name :: "string option"

text \<open>
  What a call can throw: the two \<^verbatim>\<open>new Error(...)\<close> of the file and the request
  error of the REST client, with its HTTP status (404 for an owner, repository or
  pull request that does not exist).
\<close>

datatype error =
    GITHUB_TOKEN_is_not_set
  | Invalid_pull_request_URL
  | RequestError nat

text \<open>
  The two parameter sets with which \<^verbatim>\<open>pulls.list\<close> is called: owner and repo only,
  or with \<^verbatim>\<open>state: "all", sort: "updated", direction: "desc", per_page: 100\<close>.
\<close>

datatype list_params = Owner_repo_only | State_all_updated_desc_100

text \<open>
  The environment of a call: the process environment's token, the REST endpoints
  (each returns its \<^verbatim>\<open>data\<close> or throws), the successive values of
  \<^verbatim>\<open>Date.now()\<close> (the \<open>n\<close>-th reading is \<open>Date_now n\<close>, any sequence at all) and
  \<^verbatim>\<open>new Date(s).getTime()\<close> for a timestamp string, in milliseconds.
\<close>

record Env =
  GITHUB_TOKEN :: "string option"
  repos_listForOrg :: "string \<Rightarrow> error + string list"
  pulls_list :: "string \<Rightarrow> string \<Rightarrow> list_params \<Rightarrow> error + PullRequest list"
  pulls_get :: "string \<Rightarrow> string \<Rightarrow> nat \<Rightarrow> error + PullRequest"
  pulls_listFiles :: "string \<Rightarrow> string \<Rightarrow> nat \<Rightarrow> error + File list"
  pulls_listReviews :: "string \<Rightarrow> string \<Rightarrow> nat \<Rightarrow> error + Review list"
  pulls_listReviewComments :: "string \<Rightarrow> string \<Rightarrow> nat \<Rightarrow> nat \<Rightarrow> error + Comment list"
  Date_now :: "nat \<Rightarrow> int"
  Date_getTime :: "string \<Rightarrow> int"

text \<open>\<^verbatim>\<open>getOctokit\<close> throws when the token is missing or empty.\<close>

definition getOctokit :: "Env \<Rightarrow> error + unit" where
  "getOctokit E =
     (case GITHUB_TOKEN E of
        None \<Rightarrow> Inl GITHUB_TOKEN_is_not_set
      | Some token \<Rightarrow> if token = [] then Inl GITHUB_TOKEN_is_not_set else Inr ())"

subsection \<open>getPullRequestByOwner\<close>

text \<open>
  The loop over the repositories. Its body declares its own \<^verbatim>\<open>pullRequests\<close>
  (\<^verbatim>\<open>const { data: pullRequests } = await octokit.rest.pulls.list(...)\<close>), so
  \<^verbatim>\<open>pullRequests.push(...pullRequests)\<close> appends the fetched array to itself; the
  outer array \<open>outer\<close>, which the function returns, is never written.
\<close>

fun getPullRequestByOwner_loop ::
  "Env \<Rightarrow> string \<Rightarrow> string list \<Rightarrow> PullRequest list \<Rightarrow> error + PullRequest list" where
  "getPullRequestByOwner_loop E owner [] outer = Inr outer"
| "getPullRequestByOwner_loop E owner (repo # repos) outer =
     (case pulls_list E owner repo Owner_repo_only of
        Inl e \<Rightarrow> Inl e
      | Inr inner \<Rightarrow>
          (let pushed = inner @ inner
           in getPullRequestByOwner_loop E owner repos outer))"

definition getPullRequestByOwner :: "Env \<Rightarrow> string \<Rightarrow> error + PullRequest list" where
  "getPullRequestByOwner E owner =
     (case getOctokit E of
        Inl e \<Rightarrow> Inl e
      | Inr _ \<Rightarrow>
          (case repos_listForOrg E owner of
             Inl e \<Rightarrow> Inl e
           | Inr repos \<Rightarrow> getPullRequestByOwner_loop E owner repos []))"

text \<open>
  What the specification describes: the pull requests of every listed repository,
  concatenated (used only to compare with the code).
\<close>

fun concat_pulls :: "Env \<Rightarrow> string \<Rightarrow> string list \<Rightarrow> PullRequest list" where
  "concat_pulls E owner [] = []"
| "concat_pulls E owner (repo # repos) =
     (case pulls_list E owner repo Owner_repo_only of
        Inl e \<Rightarrow> concat_pulls E owner repos
      | Inr prs \<Rightarrow> prs @ concat_pulls E owner repos)"

subsection \<open>getPullRequestDetails\<close>

record PullRequestParams =
  pp_owner :: string
  pp_repo :: string
  pp_pullNumber :: nat

record PullRequestDetails =
  d_pr :: PullRequest
  d_files :: "File list"
  d_reviewers :: "string list"

text \<open>
  \<^verbatim>\<open>pulls.get\<close> is called before the \<^verbatim>\<open>try\<close>; only \<^verbatim>\<open>pulls.listFiles\<close> is inside
  it, and its failure is caught and turned into null (\<open>Inr None\<close>).
\<close>

definition getPullRequestDetails ::
  "Env \<Rightarrow> PullRequestParams option \<Rightarrow> error + PullRequestDetails option" where
  "getPullRequestDetails E params =
     (case getOctokit E of
        Inl e \<Rightarrow> Inl e
      | Inr _ \<Rightarrow>
          (case params of
             None \<Rightarrow> Inl Invalid_pull_request_URL
           | Some p \<Rightarrow>
               (case pulls_get E (pp_owner p) (pp_repo p) (pp_pullNumber p) of
                  Inl e \<Rightarrow> Inl e
                | Inr pr_data \<Rightarrow>
                    (case pulls_listFiles E (pp_owner p) (pp_repo p) (pp_pullNumber p) of
                       Inl e \<Rightarrow> Inr None
                     | Inr fs \<Rightarrow>
                         Inr (Some \<lparr>d_pr = pr_data, d_files = fs,
                                    d_reviewers = (case pr_requested_reviewers pr_data of
                                                   None \<Rightarrow> [] | Some rs \<Rightarrow> rs)\<rparr>)))))"

subsection \<open>parsePullRequestUrl\<close>

text \<open>
  The regular expressions the file needs: literal text, an optional part (greedy), one
  or more characters of a class (greedy), a capture group, and sequence. Character
  classes: one character, every character but one (\<^verbatim>\<open>[^\/]\<close>), a decimal digit
  (\<^verbatim>\<open>\d\<close>).
\<close>

datatype cls = Chr char | NotChr char | Digit

fun cls_match :: "cls \<Rightarrow> char \<Rightarrow> bool" where
  "cls_match (Chr a) c \<longleftrightarrow> c = a"
| "cls_match (NotChr a) c \<longleftrightarrow> c \<noteq> a"
| "cls_match Digit c \<longleftrightarrow> c \<in> set ''0123456789''"

datatype regex =
    Lit string
  | Opt regex
  | Plus cls
  | Group regex
  | Seq regex regex

text \<open>
  A backtracking matcher. A state is the rest of the input with the texts captured so
  far; \<open>run r st\<close> lists every way in which \<open>r\<close> matches a prefix of the input, in the
  order in which a backtracking engine tries them (the longer repetition first, the
  optional part present first).
\<close>

type_synonym mstate = "string \<times> string list"

fun run :: "regex \<Rightarrow> mstate \<Rightarrow> mstate list" where
  "run (Lit l) (s, caps) = (if take (length l) s = l then [(drop (length l) s, caps)] else [])"
| "run (Opt r) (s, caps) = run r (s, caps) @ [(s, caps)]"
| "run (Plus c) (s, caps) =
     map (\<lambda>k. (drop k s, caps)) (rev [1..<Suc (length (takeWhile (cls_match c) s))])"
| "run (Group r) (s, caps) =
     map (\<lambda>(s', caps'). (s', caps' @ [take (length s - length s') s])) (run r (s, caps))"
| "run (Seq r1 r2) st = concat (map (run r2) (run r1 st))"

text \<open>
  \<^verbatim>\<open>String.prototype.match\<close> with a regular expression without the g flag: the first
  match at the leftmost position where there is one; \<open>None\<close> is null.
\<close>

fun search :: "regex \<Rightarrow> string \<Rightarrow> string list option" where
  "search r [] = (case run r ([], []) of [] \<Rightarrow> None | (rest, caps) # _ \<Rightarrow> Some caps)"
| "search r (c # s) =
     (case run r (c # s, []) of [] \<Rightarrow> search r s | (rest, caps) # _ \<Rightarrow> Some caps)"

text \<open>\<^verbatim>\<open>/https?:\/\/github\.com\/([^\/]+)\/([^\/]+)\/pull\/(\d+)/\<close>\<close>

definition pr_regex :: regex where
  "pr_regex =
     Seq (Lit ''http'') (Seq (Opt (Lit ''s'')) (Seq (Lit ''://github.com/'')
       (Seq (Group (Plus (NotChr CHR ''/''))) (Seq (Lit ''/'')
         (Seq (Group (Plus (NotChr CHR ''/''))) (Seq (Lit ''/pull/'')
           (Group (Plus Digit))))))))"

text \<open>
  \<^verbatim>\<open>Number.parseInt(digits, 10)\<close> on a string of decimal digits: \<open>parseInt10\<close> is
  the integer that the digits denote, and the result is the double nearest to that
  integer (as Node.js computes it), so it is exact below \<open>2^53\<close>, rounded above, and
  Infinity from 309 digits on.
\<close>

definition digit_val :: "char \<Rightarrow> nat" where
  "digit_val c = of_char c - 48"

definition parseInt10 :: "string \<Rightarrow> nat" where
  "parseInt10 ds = foldl (\<lambda>acc c. 10 * acc + digit_val c) 0 ds"

definition Number_parseInt :: "string \<Rightarrow> js_number" where
  "Number_parseInt ds = js_round (real (parseInt10 ds))"

text \<open>
  The object that \<^verbatim>\<open>parsePullRequestUrl\<close> builds has the fields of
  \<^verbatim>\<open>PullRequestParams\<close>; its \<^verbatim>\<open>pullNumber\<close> is the double that \<^verbatim>\<open>Number.parseInt\<close>
  returns, which need not be a whole number that GitHub could serve, so it is kept as
  a \<open>js_number\<close>. The function returns \<^verbatim>\<open>null\<close> when the expression does not match.
\<close>

record ParsedPullRequestUrl =
  url_owner :: string
  url_repo :: string
  url_pullNumber :: js_number

definition parsePullRequestUrl :: "string \<Rightarrow> ParsedPullRequestUrl option" where
  "parsePullRequestUrl url =
     (case search pr_regex url of
        Some [m1, m2, m3] \<Rightarrow>
          Some \<lparr>url_owner = m1, url_repo = m2, url_pullNumber = Number_parseInt m3\<rparr>
      | _ \<Rightarrow> None)"

text \<open>
  The shape of a pull-request URL in words, to state what the function recognises: a
  path segment is a non-empty text without a slash, a number is a non-empty text of
  decimal digits, and \<open>occurs_at s i\<close> says that such a URL, with scheme http or https
  and host github.com, starts at position \<open>i\<close> of \<open>s\<close>.
\<close>

definition segment :: "string \<Rightarrow> bool" where
  "segment x \<longleftrightarrow> x \<noteq> [] \<and> CHR ''/'' \<notin> set x"

definition digits :: "string \<Rightarrow> bool" where
  "digits ds \<longleftrightarrow> ds \<noteq> [] \<and> set ds \<subseteq> set ''0123456789''"

definition pr_url :: "string \<Rightarrow> string \<Rightarrow> string \<Rightarrow> string \<Rightarrow> string \<Rightarrow> string" where
  "pr_url scheme host ow rp ds = scheme @ ''://'' @ host @ ''/'' @ ow @ ''/'' @ rp @ ''/pull/'' @ ds"

definition occurs_at :: "string \<Rightarrow> nat \<Rightarrow> bool" where
  "occurs_at s i \<longleftrightarrow>
     (\<exists>scheme ow rp ds rest.
        (scheme = ''http'' \<or> scheme = ''https'') \<and> segment ow \<and> segment rp \<and> digits ds \<and>
        drop i s = pr_url scheme ''github.com'' ow rp ds @ rest)"

subsection \<open>The three module-level caches and the clock\<close>

text \<open>
  The state that outlives a call: \<^verbatim>\<open>pullRequestsCache\<close>, \<^verbatim>\<open>reviewsCache\<close> and
  \<^verbatim>\<open>filesCache\<close>, and how many times \<^verbatim>\<open>Date.now()\<close> has been read.
\<close>

record World =
  pullRequestsCache :: "PullRequest list CacheStore"
  reviewsCache :: "Review list CacheStore"
  filesCache :: "File list CacheStore"
  clock_reads :: nat

definition initial_World :: World where
  "initial_World =
     \<lparr>pullRequestsCache = new_CacheStore None, reviewsCache = new_CacheStore None,
      filesCache = new_CacheStore None, clock_reads = 0\<rparr>"

text \<open>A number inside a template literal: its decimal digits.\<close>

definition digit_char :: "nat \<Rightarrow> char" where
  "digit_char d = char_of (48 + d)"

fun show_nat :: "nat \<Rightarrow> string" where
  "show_nat n = (if n < 10 then [digit_char n] else show_nat (n div 10) @ [digit_char (n mod 10)])"

declare show_nat.simps [simp del]

definition getPRCacheKey :: "string \<Rightarrow> string \<Rightarrow> string" where
  "getPRCacheKey owner repo = ''pr:'' @ owner @ '':'' @ repo"

definition getReviewsCacheKey :: "string \<Rightarrow> string \<Rightarrow> nat \<Rightarrow> string" where
  "getReviewsCacheKey owner repo prNumber =
     ''review:'' @ owner @ '':'' @ repo @ '':'' @ show_nat prNumber"

definition getFilesCacheKey :: "string \<Rightarrow> string \<Rightarrow> nat \<Rightarrow> string" where
  "getFilesCacheKey owner repo prNumber =
     ''files:'' @ owner @ '':'' @ repo @ '':'' @ show_nat prNumber"

text \<open>
  \<^verbatim>\<open>cache.get(key)\<close> and \<^verbatim>\<open>cache.set(key, data)\<close> on each of the three stores.
  \<^verbatim>\<open>get\<close> reads the clock only when the key is stored, \<^verbatim>\<open>set\<close> always.
\<close>

definition pullRequestsCache_get :: "Env \<Rightarrow> string \<Rightarrow> World \<Rightarrow> PullRequest list option \<times> World" where
  "pullRequestsCache_get E key w =
     (case cache (pullRequestsCache w) key of
        None \<Rightarrow> (None, w)
      | Some _ \<Rightarrow>
          (let (r, c) = get (Date_now E (clock_reads w)) (pullRequestsCache w) key
           in (r, w\<lparr>pullRequestsCache := c, clock_reads := Suc (clock_reads w)\<rparr>)))"

definition pullRequestsCache_set :: "Env \<Rightarrow> string \<Rightarrow> PullRequest list \<Rightarrow> World \<Rightarrow> World" where
  "pullRequestsCache_set E key d w =
     w\<lparr>pullRequestsCache := set_entry (Date_now E (clock_reads w)) (pullRequestsCache w) key d,
       clock_reads := Suc (clock_reads w)\<rparr>"

definition reviewsCache_get :: "Env \<Rightarrow> string \<Rightarrow> World \<Rightarrow> Review list option \<times> World" where
  "reviewsCache_get E key w =
     (case cache (reviewsCache w) key of
        None \<Rightarrow> (None, w)
      | Some _ \<Rightarrow>
          (let (r, c) = get (Date_now E (clock_reads w)) (reviewsCache w) key
           in (r, w\<lparr>reviewsCache := c, clock_reads := Suc (clock_reads w)\<rparr>)))"

definition reviewsCache_set :: "Env \<Rightarrow> string \<Rightarrow> Review list \<Rightarrow> World \<Rightarrow> World" where
  "reviewsCache_set E key d w =
     w\<lparr>reviewsCache := set_entry (Date_now E (clock_reads w)) (reviewsCache w) key d,
       clock_reads := Suc (clock_reads w)\<rparr>"

definition filesCache_get :: "Env \<Rightarrow> string \<Rightarrow> World \<Rightarrow> File list option \<times> World" where
  "filesCache_get E key w =
     (case cache (filesCache w) key of
        None \<Rightarrow> (None, w)
      | Some _ \<Rightarrow>
          (let (r, c) = get (Date_now E (clock_reads w)) (filesCache w) key
           in (r, w\<lparr>filesCache := c, clock_reads := Suc (clock_reads w)\<rparr>)))"

definition filesCache_set :: "Env \<Rightarrow> string \<Rightarrow> File list \<Rightarrow> World \<Rightarrow> World" where
  "filesCache_set E key d w =
     w\<lparr>filesCache := set_entry (Date_now E (clock_reads w)) (filesCache w) key d,
       clock_reads := Suc (clock_reads w)\<rparr>"

text \<open>
  The read-through blocks that the file repeats inline: look the key up, and on null
  call the endpoint and store its data. (An empty array is truthy: a cached empty list
  is a hit.) An endpoint that throws ends the call with the state reached so far.
\<close>

definition cached_pulls_list :: "Env \<Rightarrow> string \<Rightarrow> string \<Rightarrow> World \<Rightarrow> (error + PullRequest list) \<times> World" where
  "cached_pulls_list E owner repo w =
     (let prCacheKey = getPRCacheKey owner repo
      in case pullRequestsCache_get E prCacheKey w of
           (Some pullRequests, w1) \<Rightarrow> (Inr pullRequests, w1)
         | (None, w1) \<Rightarrow>
             (case pulls_list E owner repo State_all_updated_desc_100 of
                Inl e \<Rightarrow> (Inl e, w1)
              | Inr d \<Rightarrow> (Inr d, pullRequestsCache_set E prCacheKey d w1)))"

definition cached_listReviews :: "Env \<Rightarrow> string \<Rightarrow> string \<Rightarrow> nat \<Rightarrow> World \<Rightarrow> (error + Review list) \<times> World" where
  "cached_listReviews E owner repo prNumber w =
     (let reviewsCacheKey = getReviewsCacheKey owner repo prNumber
      in case reviewsCache_get E reviewsCacheKey w of
           (Some prReviews, w1) \<Rightarrow> (Inr prReviews, w1)
         | (None, w1) \<Rightarrow>
             (case pulls_listReviews E owner repo prNumber of
                Inl e \<Rightarrow> (Inl e, w1)
              | Inr d \<Rightarrow> (Inr d, reviewsCache_set E reviewsCacheKey d w1)))"

definition cached_listFiles :: "Env \<Rightarrow> string \<Rightarrow> string \<Rightarrow> nat \<Rightarrow> World \<Rightarrow> (error + File list) \<times> World" where
  "cached_listFiles E owner repo prNumber w =
     (let filesCacheKey = getFilesCacheKey owner repo prNumber
      in case filesCache_get E filesCacheKey w of
           (Some prFiles, w1) \<Rightarrow> (Inr prFiles, w1)
         | (None, w1) \<Rightarrow>
             (case pulls_listFiles E owner repo prNumber of
                Inl e \<Rightarrow> (Inl e, w1)
              | Inr d \<Rightarrow> (Inr d, filesCache_set E filesCacheKey d w1)))"

subsection \<open>getReviewHistory\<close>

record ReviewComment =
  rc_id :: nat
  rc_prNumber :: nat
  rc_author :: string
  rc_body :: string
  rc_createdAt :: string
  rc_path :: string
  rc_line :: "int option"
  rc_commitId :: string

record ReviewEntry =
  re_prNumber :: nat
  re_submittedAt :: string
  re_comments :: "ReviewComment list"

record Stats =
  totalReviews :: nat
  totalComments :: nat
  averageResponseTime :: js_number
  lastReviewAt :: string
  relatedFileChanges :: nat

record ReviewHistory =
  reviewer_login :: string
  reviewer_name :: "string option"
  reviews :: "ReviewEntry list"
  stats :: Stats

text \<open>The four variables that the loops update.\<close>

record Acc =
  acc_reviews :: "ReviewEntry list"
  acc_totalComments :: nat
  acc_totalResponseTime :: real
  acc_lastReviewAt :: string

definition formatComment :: "PullRequest \<Rightarrow> Comment \<Rightarrow> ReviewComment" where
  "formatComment p c =
     \<lparr>rc_id = cm_id c, rc_prNumber = pr_number p,
      rc_author = (case cm_user_login c of None \<Rightarrow> [] | Some l \<Rightarrow> l),
      rc_body = (case cm_body c of None \<Rightarrow> [] | Some b \<Rightarrow> b),
      rc_createdAt = cm_created_at c, rc_path = cm_path c, rc_line = cm_line c,
      rc_commitId = cm_commit_id c\<rparr>"

text \<open>
  \<^verbatim>\<open>new Date(review.submitted_at ?? pr.created_at).getTime() -
  new Date(pr.created_at).getTime()\<close>, a subtraction of two doubles that hold
  whole milliseconds.
\<close>

definition responseTime :: "Env \<Rightarrow> PullRequest \<Rightarrow> Review \<Rightarrow> real" where
  "responseTime E p review =
     js_sub
       (of_int (Date_getTime E
          (case rv_submitted_at review of None \<Rightarrow> pr_created_at p | Some s \<Rightarrow> s)))
       (of_int (Date_getTime E (pr_created_at p)))"

text \<open>
  The update of \<^verbatim>\<open>lastReviewAt\<close>: strings are compared as JavaScript compares them,
  by code unit, and the empty string is falsy.
\<close>

definition update_lastReviewAt :: "string \<Rightarrow> string option \<Rightarrow> string" where
  "update_lastReviewAt l submitted_at =
     (if l = [] \<or> (case submitted_at of None \<Rightarrow> False | Some s \<Rightarrow> s \<noteq> [] \<and> s > l)
      then (case submitted_at of None \<Rightarrow> l | Some s \<Rightarrow> s)
      else l)"

text \<open>The inner loop, over the reviews of one pull request that the reviewer wrote.\<close>

fun reviewerReviews_loop ::
  "Env \<Rightarrow> string \<Rightarrow> string \<Rightarrow> PullRequest \<Rightarrow> Review list \<Rightarrow> Acc \<Rightarrow> error + Acc" where
  "reviewerReviews_loop E owner repo p [] acc = Inr acc"
| "reviewerReviews_loop E owner repo p (review # rest) acc =
     (case pulls_listReviewComments E owner repo (pr_number p) (rv_id review) of
        Inl e \<Rightarrow> Inl e
      | Inr comments \<Rightarrow>
          (let formattedComments = map (formatComment p) comments
           in reviewerReviews_loop E owner repo p rest
                \<lparr>acc_reviews = acc_reviews acc @
                   [\<lparr>re_prNumber = pr_number p,
                     re_submittedAt = (case rv_submitted_at review of None \<Rightarrow> [] | Some s \<Rightarrow> s),
                     re_comments = formattedComments\<rparr>],
                 acc_totalComments = acc_totalComments acc + length formattedComments,
                 acc_totalResponseTime =
                   js_add (acc_totalResponseTime acc) (responseTime E p review),
                 acc_lastReviewAt = update_lastReviewAt (acc_lastReviewAt acc) (rv_submitted_at review)\<rparr>))"

text \<open>The outer loop, over the pull requests; \<open>since\<close> is the cutoff in milliseconds.\<close>

fun pullRequests_loop ::
  "Env \<Rightarrow> string \<Rightarrow> string \<Rightarrow> string \<Rightarrow> int \<Rightarrow> PullRequest list \<Rightarrow> Acc \<Rightarrow> World
   \<Rightarrow> (error + Acc) \<times> World" where
  "pullRequests_loop E owner repo reviewer since [] acc w = (Inr acc, w)"
| "pullRequests_loop E owner repo reviewer since (p # rest) acc w =
     (if Date_getTime E (pr_created_at p) < since
      then pullRequests_loop E owner repo reviewer since rest acc w
      else
        (case cached_listReviews E owner repo (pr_number p) w of
           (Inl e, w1) \<Rightarrow> (Inl e, w1)
         | (Inr prReviews, w1) \<Rightarrow>
             (case reviewerReviews_loop E owner repo p
                     (filter (\<lambda>review. rv_user_login review = Some reviewer) prReviews) acc of
                Inl e \<Rightarrow> (Inl e, w1)
              | Inr acc' \<Rightarrow> pullRequests_loop E owner repo reviewer since rest acc' w1)))"

definition make_stats :: "Acc \<Rightarrow> Stats" where
  "make_stats acc =
     \<lparr>totalReviews = length (acc_reviews acc),
      totalComments = acc_totalComments acc,
      averageResponseTime =
        (if length (acc_reviews acc) > 0
         then js_divide (acc_totalResponseTime acc) (real (length (acc_reviews acc)))
         else Num 0),
      lastReviewAt = acc_lastReviewAt acc,
      relatedFileChanges = 0\<rparr>"

text \<open>
  \<open>since = None\<close> is the default parameter
  \<^verbatim>\<open>new Date(Date.now() - 30 * 24 * 60 * 60 * 1000)\<close>, evaluated when the call starts.
\<close>

definition getReviewHistory ::
  "Env \<Rightarrow> string \<Rightarrow> string \<Rightarrow> string \<Rightarrow> int option \<Rightarrow> World \<Rightarrow> (error + ReviewHistory) \<times> World" where
  "getReviewHistory E owner repo reviewer since w =
     (let (since_ms, w0) =
            (case since of
               Some t \<Rightarrow> (t, w)
             | None \<Rightarrow> (Date_now E (clock_reads w) - 30 * 24 * 60 * 60 * 1000,
                        w\<lparr>clock_reads := Suc (clock_reads w)\<rparr>))
      in case getOctokit E of
           Inl e \<Rightarrow> (Inl e, w0)
         | Inr _ \<Rightarrow>
             (case cached_pulls_list E owner repo w0 of
                (Inl e, w1) \<Rightarrow> (Inl e, w1)
              | (Inr pullRequests, w1) \<Rightarrow>
                  (case pullRequests_loop E owner repo reviewer since_ms pullRequests
                          \<lparr>acc_reviews = [], acc_totalComments = 0, acc_totalResponseTime = 0,
                           acc_lastReviewAt = []\<rparr> w1 of
                     (Inl e, w2) \<Rightarrow> (Inl e, w2)
                   | (Inr acc, w2) \<Rightarrow>
                       (Inr \<lparr>reviewer_login = reviewer, reviewer_name = None,
                             reviews = acc_reviews acc, stats = make_stats acc\<rparr>, w2))))"

subsection \<open>calculateRelatedFileExperience\<close>

text \<open>The loop over the pull requests of the repository, with the counter.\<close>

fun relatedChanges_loop ::
  "Env \<Rightarrow> string \<Rightarrow> string \<Rightarrow> string \<Rightarrow> string set \<Rightarrow> PullRequest list \<Rightarrow> nat \<Rightarrow> World
   \<Rightarrow> (error + nat) \<times> World" where
  "relatedChanges_loop E owner repo reviewer currentFiles [] relatedChanges w =
     (Inr relatedChanges, w)"
| "relatedChanges_loop E owner repo reviewer currentFiles (p # rest) relatedChanges w =
     (case cached_listReviews E owner repo (pr_number p) w of
        (Inl e, w1) \<Rightarrow> (Inl e, w1)
      | (Inr prReviews, w1) \<Rightarrow>
          (if list_ex (\<lambda>review. rv_user_login review = Some reviewer) prReviews
           then
             (case cached_listFiles E owner repo (pr_number p) w1 of
                (Inl e, w2) \<Rightarrow> (Inl e, w2)
              | (Inr reviewFiles, w2) \<Rightarrow>
                  relatedChanges_loop E owner repo reviewer currentFiles rest
                    (if list_ex (\<lambda>file. filename file \<in> currentFiles) reviewFiles
                     then relatedChanges + 1 else relatedChanges) w2)
           else relatedChanges_loop E owner repo reviewer currentFiles rest relatedChanges w1))"

definition calculateRelatedFileExperience ::
  "Env \<Rightarrow> string \<Rightarrow> string \<Rightarrow> nat \<Rightarrow> string \<Rightarrow> World \<Rightarrow> (error + nat) \<times> World" where
  "calculateRelatedFileExperience E owner repo prNumber reviewer w =
     (case getOctokit E of
        Inl e \<Rightarrow> (Inl e, w)
      | Inr _ \<Rightarrow>
          (case cached_listFiles E owner repo prNumber w of
             (Inl e, w1) \<Rightarrow> (Inl e, w1)
           | (Inr prFiles, w1) \<Rightarrow>
               (let currentFiles = set (map filename prFiles)
                in case cached_pulls_list E owner repo w1 of
                     (Inl e, w2) \<Rightarrow> (Inl e, w2)
                   | (Inr pullRequests, w2) \<Rightarrow>
                       relatedChanges_loop E owner repo reviewer currentFiles pullRequests 0 w2)))"

subsection \<open>Vocabulary for the properties of the two aggregations\<close>

text \<open>
  What the endpoints hold for a pull request of the repository (the empty list where an
  endpoint fails), and the state of the caches in which every entry of the repository
  is the data the endpoint returns for its key.
\<close>

definition reviews_of :: "Env \<Rightarrow> string \<Rightarrow> string \<Rightarrow> nat \<Rightarrow> Review list" where
  "reviews_of E owner repo n =
     (case pulls_listReviews E owner repo n of Inl e \<Rightarrow> [] | Inr rs \<Rightarrow> rs)"

definition files_of :: "Env \<Rightarrow> string \<Rightarrow> string \<Rightarrow> nat \<Rightarrow> File list" where
  "files_of E owner repo n =
     (case pulls_listFiles E owner repo n of Inl e \<Rightarrow> [] | Inr fs \<Rightarrow> fs)"

definition coherent :: "Env \<Rightarrow> string \<Rightarrow> string \<Rightarrow> World \<Rightarrow> bool" where
  "coherent E owner repo w \<longleftrightarrow>
     (\<forall>e. cache (pullRequestsCache w) (getPRCacheKey owner repo) = Some e \<longrightarrow>
          pulls_list E owner repo State_all_updated_desc_100 = Inr (data e))
   \<and> (\<forall>n e. cache (reviewsCache w) (getReviewsCacheKey owner repo n) = Some e \<longrightarrow>
          pulls_listReviews E owner repo n = Inr (data e))
   \<and> (\<forall>n e. cache (filesCache w) (getFilesCacheKey owner repo n) = Some e \<longrightarrow>
          pulls_listFiles E owner repo n = Inr (data e))"

text \<open>
  A pull request that has a review written by the reviewer; a pull request that has a
  changed file name in common with the given files.
\<close>

definition reviewed_by :: "Env \<Rightarrow> string \<Rightarrow> string \<Rightarrow> string \<Rightarrow> PullRequest \<Rightarrow> bool" where
  "reviewed_by E owner repo reviewer p \<longleftrightarrow>
     (\<exists>review \<in> set (reviews_of E owner repo (pr_number p)). rv_user_login review = Some reviewer)"

definition common_file :: "Env \<Rightarrow> string \<Rightarrow> string \<Rightarrow> File list \<Rightarrow> PullRequest \<Rightarrow> bool" where
  "common_file E owner repo prFiles p \<longleftrightarrow>
     filename ` set (files_of E owner repo (pr_number p)) \<inter> filename ` set prFiles \<noteq> {}"

text \<open>
  The reviews that \<^verbatim>\<open>getReviewHistory\<close> counts: for each pull request not created
  before the cutoff, in the order of the list, its reviews written by the reviewer, each
  paired with its pull request.
\<close>

definition matched_reviews ::
  "Env \<Rightarrow> string \<Rightarrow> string \<Rightarrow> string \<Rightarrow> int \<Rightarrow> PullRequest list \<Rightarrow> (PullRequest \<times> Review) list" where
  "matched_reviews E owner repo reviewer since prs =
     concat (map (\<lambda>p. map (Pair p)
                        (filter (\<lambda>review. rv_user_login review = Some reviewer)
                           (reviews_of E owner repo (pr_number p))))
               (filter (\<lambda>p. \<not> Date_getTime E (pr_created_at p) < since) prs))"

text \<open>
  The sum of the response times of a list of matched reviews, added in doubles in the
  order of the list, as the loops add them.
\<close>

definition total_response :: "Env \<Rightarrow> (PullRequest \<times> Review) list \<Rightarrow> real" where
  "total_response E M = foldl (\<lambda>a (p, review). js_add a (responseTime E p review)) 0 M"

text \<open>The cutoff of a call: the argument, or 30 days before the clock reading.\<close>

definition cutoff :: "Env \<Rightarrow> int option \<Rightarrow> World \<Rightarrow> int" where
  "cutoff E since w =
     (case since of Some t \<Rightarrow> t | None \<Rightarrow> Date_now E (clock_reads w) - 30 * 24 * 60 * 60 * 1000)"

section \<open>The find-pr-buddy tool (index.ts)\<close>

subsection \<open>The candidate filter\<close>

text \<open>
  \<^verbatim>\<open>!prDetails.reviewers.some((r) => r.login === buddy.login) ||
  buddy.login !== prDetails.pr.user.login\<close>
\<close>

definition buddy_filter :: "PullRequestDetails \<Rightarrow> Member \<Rightarrow> bool" where
  "buddy_filter prDetails buddy \<longleftrightarrow>
     \<not> list_ex (\<lambda>r. r = m_login buddy) (d_reviewers prDetails)
     \<or> m_login buddy \<noteq> pr_user_login (d_pr prDetails)"

subsection \<open>Score, sort and slice\<close>

text \<open>
  A candidate after the history and file-experience lookups, with the fields the
  scoring reads, and the same candidate with its score. The counts are natural
  numbers (counters and array lengths, far below \<open>2^53\<close>); the score is a double.
\<close>

record ReviewerDetails =
  rd_login :: string
  rd_name :: "string option"
  pendingReviews :: nat
  rd_relatedFileChanges :: nat
  rd_totalReviews :: nat
  recentComments :: "string list"

record ScoredReviewer = ReviewerDetails +
  score :: real

text \<open>
  \<^verbatim>\<open>(1 / (pendingReviews + 1)) * 0.3 + (relatedFileChanges / 10) * 0.4 +
  (totalReviews / 50) * 0.3\<close>, every operation in doubles; the literals \<^verbatim>\<open>0.3\<close>
  and \<^verbatim>\<open>0.4\<close> are the doubles nearest to them.
\<close>

definition calc_score :: "nat \<Rightarrow> nat \<Rightarrow> nat \<Rightarrow> real" where
  "calc_score pending related totalRv =
     js_add
       (js_add (js_mul (js_div 1 (js_add (real pending) 1)) (fl (3 / 10)))
               (js_mul (js_div (real related) 10) (fl (4 / 10))))
       (js_mul (js_div (real totalRv) 50) (fl (3 / 10)))"

definition with_score :: "ReviewerDetails \<Rightarrow> ScoredReviewer" where
  "with_score reviewer =
     ReviewerDetails.extend reviewer
       (ScoredReviewer.fields
          (calc_score (pendingReviews reviewer) (rd_relatedFileChanges reviewer)
             (rd_totalReviews reviewer)))"

text \<open>
  \<^verbatim>\<open>Array.prototype.sort(compare)\<close>: a stable sort by the comparator (an element
  moves in front of another only when the comparator is negative for the pair). It is
  modelled by insertion from the right, which is stable.
\<close>

fun insert_by :: "('a \<Rightarrow> 'a \<Rightarrow> real) \<Rightarrow> 'a \<Rightarrow> 'a list \<Rightarrow> 'a list" where
  "insert_by cmp x [] = [x]"
| "insert_by cmp x (y # ys) =
     (if cmp x y \<le> 0 then x # y # ys else y # insert_by cmp x ys)"

fun sort_by :: "('a \<Rightarrow> 'a \<Rightarrow> real) \<Rightarrow> 'a list \<Rightarrow> 'a list" where
  "sort_by cmp [] = []"
| "sort_by cmp (x # xs) = insert_by cmp x (sort_by cmp xs)"

text \<open>The comparator \<^verbatim>\<open>(a, b) => b.score - a.score\<close>, a subtraction of doubles.\<close>

definition by_score_desc :: "ScoredReviewer \<Rightarrow> ScoredReviewer \<Rightarrow> real" where
  "by_score_desc a b = js_sub (score b) (score a)"

text \<open>
  \<^verbatim>\<open>slice(0, end)\<close> for an integer end \<open>e\<close>: a negative \<open>e\<close> counts from the end of
  the array.
\<close>

definition slice0 :: "int \<Rightarrow> 'a list \<Rightarrow> 'a list" where
  "slice0 e xs =
     (if e < 0 then take (nat (int (length xs) + e)) xs else take (nat e) xs)"

text \<open>
  \<^verbatim>\<open>reviewerDetails.map(score).sort(...).slice(0, count)\<close>, with the parameter
  default \<^verbatim>\<open>count = 10\<close> (\<open>cnt = None\<close> when the caller gives no count).
\<close>

definition scoredReviewers :: "int option \<Rightarrow> ReviewerDetails list \<Rightarrow> ScoredReviewer list" where
  "scoredReviewers cnt reviewerDetails =
     slice0 (case cnt of None \<Rightarrow> 10 | Some n \<Rightarrow> n)
       (sort_by by_score_desc (map with_score reviewerDetails))"

section \<open>An example organisation\<close>

text \<open>
  The organisation acme with one repository, widgets, and four pull requests: A (1, by
  alice, files x.ts and y.ts, reviewed by sam after 45 minutes), B (2, by bob, files
  y.ts and z.ts, reviewed by rita after 30 minutes), C (3, by carol, file q.ts, with a
  review of rita that has no submission time) and an old one (4, file w.ts, reviewed by
  rita). The clock starts at 2024-05-04T00:00:00Z.
\<close>

definition pr_A :: PullRequest where
  "pr_A = \<lparr>pr_number = 1, pr_created_at = ''2024-05-01T10:00:00Z'', pr_user_login = ''alice'',
           pr_requested_reviewers = Some [''bob'']\<rparr>"

definition pr_B :: PullRequest where
  "pr_B = \<lparr>pr_number = 2, pr_created_at = ''2024-05-02T10:00:00Z'', pr_user_login = ''bob'',
           pr_requested_reviewers = None\<rparr>"

definition pr_C :: PullRequest where
  "pr_C = \<lparr>pr_number = 3, pr_created_at = ''2024-05-03T10:00:00Z'', pr_user_login = ''carol'',
           pr_requested_reviewers = Some []\<rparr>"

definition pr_old :: PullRequest where
  "pr_old = \<lparr>pr_number = 4, pr_created_at = ''2024-03-01T10:00:00Z'', pr_user_login = ''bob'',
             pr_requested_reviewers = None\<rparr>"

definition acme_files :: "nat \<Rightarrow> error + File list" where
  "acme_files n =
     (if n = 1 then Inr [\<lparr>filename = ''x.ts''\<rparr>, \<lparr>filename = ''y.ts''\<rparr>]
      else if n = 2 then Inr [\<lparr>filename = ''y.ts''\<rparr>, \<lparr>filename = ''z.ts''\<rparr>]
      else if n = 3 then Inr [\<lparr>filename = ''q.ts''\<rparr>]
      else if n = 4 then Inr [\<lparr>filename = ''w.ts''\<rparr>]
      else Inl (RequestError 404))"

definition acme_reviews :: "nat \<Rightarrow> error + Review list" where
  "acme_reviews n =
     (if n = 1 then Inr [\<lparr>rv_id = 11, rv_user_login = Some ''sam'',
                          rv_submitted_at = Some ''2024-05-01T10:45:00Z''\<rparr>]
      else if n = 2 then Inr [\<lparr>rv_id = 21, rv_user_login = Some ''rita'',
                               rv_submitted_at = Some ''2024-05-02T10:30:00Z''\<rparr>]
      else if n = 3 then Inr [\<lparr>rv_id = 31, rv_user_login = None, rv_submitted_at = None\<rparr>,
                              \<lparr>rv_id = 32, rv_user_login = Some ''rita'', rv_submitted_at = None\<rparr>]
      else if n = 4 then Inr [\<lparr>rv_id = 41, rv_user_login = Some ''rita'',
                               rv_submitted_at = Some ''2024-03-01T10:00:00Z''\<rparr>]
      else Inl (RequestError 404))"

definition acme_getTime :: "string \<Rightarrow> int" where
  "acme_getTime s =
     (if s = ''2024-03-01T10:00:00Z'' then 1709287200000
      else if s = ''2024-05-01T10:00:00Z'' then 1714557600000
      else if s = ''2024-05-01T10:45:00Z'' then 1714560300000
      else if s = ''2024-05-02T10:00:00Z'' then 1714644000000
      else if s = ''2024-05-02T10:30:00Z'' then 1714645800000
      else if s = ''2024-05-03T10:00:00Z'' then 1714730400000
      else 0)"

definition acme :: Env where
  "acme =
     \<lparr>GITHUB_TOKEN = Some ''token'',
      repos_listForOrg =
        (\<lambda>org. if org = ''acme'' then Inr [''widgets''] else Inl (RequestError 404)),
      pulls_list =
        (\<lambda>ow rp ps. if ow = ''acme'' \<and> rp = ''widgets'' then Inr [pr_A, pr_B, pr_C, pr_old]
                     else Inl (RequestError 404)),
      pulls_get =
        (\<lambda>ow rp n. if ow = ''acme'' \<and> rp = ''widgets'' \<and> n = 1 then Inr pr_A
                    else if ow = ''acme'' \<and> rp = ''widgets'' \<and> n = 2 then Inr pr_B
                    else Inl (RequestError 404)),
      pulls_listFiles =
        (\<lambda>ow rp n. if ow = ''acme'' \<and> rp = ''widgets'' then acme_files n
                    else Inl (RequestError 404)),
      pulls_listReviews =
        (\<lambda>ow rp n. if ow = ''acme'' \<and> rp = ''widgets'' then acme_reviews n
                    else Inl (RequestError 404)),
      pulls_listReviewComments = (\<lambda>ow rp n i. Inr []),
      Date_now = (\<lambda>n. 1714780800000 + int n),
      Date_getTime = acme_getTime\<rparr>"

text \<open>
  Three candidates whose scores are the doubles 0.5, 0.5 and 0.3, and a fourth whose
  score is the next double above 0.5 (with exact numbers it would be 0.5 as well).
\<close>

definition cand_A :: ReviewerDetails where
  "cand_A = \<lparr>rd_login = ''A'', rd_name = None, pendingReviews = 0, rd_relatedFileChanges = 5,
             rd_totalReviews = 0, recentComments = []\<rparr>"

definition cand_B :: ReviewerDetails where
  "cand_B = \<lparr>rd_login = ''B'', rd_name = None, pendingReviews = 0, rd_relatedFileChanges = 5,
             rd_totalReviews = 0, recentComments = []\<rparr>"

definition cand_C :: ReviewerDetails where
  "cand_C = \<lparr>rd_login = ''C'', rd_name = None, pendingReviews = 0, rd_relatedFileChanges = 0,
             rd_totalReviews = 0, recentComments = []\<rparr>"

definition cand_D :: ReviewerDetails where
  "cand_D = \<lparr>rd_login = ''D'', rd_name = None, pendingReviews = 1, rd_relatedFileChanges = 8,
             rd_totalReviews = 5, recentComments = []\<rparr>"

section \<open>Properties of the arithmetic of doubles\<close>

subsection \<open>Powers of two and the exponent search\<close>

lemma pow2_powr: "pow2 e = 2 powr (of_int e)"
  by (simp add: pow2_def powr_real_of_int inverse_eq_divide)

lemma pow2_pos [simp]: "0 < pow2 e"
  by (simp add: pow2_powr)

lemma pow2_nonneg [simp]: "0 \<le> pow2 e"
  using pow2_pos [of e] by (rule less_imp_le)

lemma pow2_neq0 [simp]: "pow2 e \<noteq> 0"
  by (simp add: pow2_powr)

lemma pow2_add: "pow2 (a + b) = pow2 a * pow2 b"
  by (simp add: pow2_powr powr_add)

lemma pow2_diff: "pow2 (a - b) = pow2 a / pow2 b"
  by (simp add: pow2_powr powr_diff)

lemma pow2_less_iff [simp]: "pow2 a < pow2 b \<longleftrightarrow> a < b"
  by (simp add: pow2_powr)

lemma pow2_le_iff [simp]: "pow2 a \<le> pow2 b \<longleftrightarrow> a \<le> b"
  by (simp add: pow2_powr)

lemma pow2_0 [simp]: "pow2 0 = 1"
  by (simp add: pow2_def)

lemma pow2_nat: "pow2 (int n) = 2 ^ n"
  by (simp add: pow2_def)

lemma expo_unique:
  assumes "pow2 a \<le> x" "x < pow2 (a + 1)" "pow2 b \<le> x" "x < pow2 (b + 1)"
  shows "a = b"
proof -
  have "pow2 a < pow2 (b + 1)" using assms(1,4) by linarith
  moreover have "pow2 b < pow2 (a + 1)" using assms(3,2) by linarith
  ultimately show ?thesis by simp
qed

lemma expo_exists:
  assumes "0 < x"
  shows "\<exists>E. pow2 E \<le> x \<and> x < pow2 (E + 1)"
proof -
  have "\<lfloor>log 2 x\<rfloor> = \<lfloor>log 2 x\<rfloor>" ..
  then have "2 powr (of_int \<lfloor>log 2 x\<rfloor>) \<le> x \<and> x < 2 powr (of_int (\<lfloor>log 2 x\<rfloor> + 1))"
    using assms floor_log_eq_powr_iff [of x 2 "\<lfloor>log 2 x\<rfloor>"] by simp
  then show ?thesis unfolding pow2_powr by blast
qed

lemma expo_search_correct:
  assumes "pow2 E \<le> x" "x < pow2 (E + 1)" "\<bar>E - e\<bar> \<le> int n"
  shows "expo_search n e x = E"
  using assms(3)
proof (induction n arbitrary: e)
  case 0
  then show ?case by simp
next
  case (Suc n)
  show ?case
  proof (cases "x < pow2 e")
    case True
    with assms(1) have "pow2 E < pow2 e" by linarith
    then have "E < e" by simp
    with Suc.prems have "\<bar>E - (e - 1)\<bar> \<le> int n" by simp
    with Suc.IH True show ?thesis by simp
  next
    case False
    show ?thesis
    proof (cases "pow2 (e + 1) \<le> x")
      case True
      with assms(2) have "pow2 (e + 1) < pow2 (E + 1)" by linarith
      then have "e < E" by simp
      with Suc.prems have "\<bar>E - (e + 1)\<bar> \<le> int n" by simp
      with Suc.IH True False show ?thesis by simp
    next
      case True2: False
      with False have "pow2 e \<le> x" "x < pow2 (e + 1)" by simp_all
      with assms(1,2) have "E = e" by (rule expo_unique)
      with False True2 show ?thesis by simp
    qed
  qed
qed

lemma expo_eq:
  assumes "pow2 E \<le> x" "x < pow2 (E + 1)" "\<bar>E\<bar> \<le> 1100"
  shows "expo x = E"
  unfolding expo_def using assms by (intro expo_search_correct) simp_all

lemma expo_search_small:
  assumes "x < pow2 k"
  shows "x < pow2 (e + 1) \<Longrightarrow> e - int n \<le> k \<Longrightarrow> expo_search n e x \<le> k"
proof (induction n arbitrary: e)
  case 0
  then show ?case by simp
next
  case (Suc n)
  show ?case
  proof (cases "x < pow2 e")
    case True
    then have "expo_search n (e - 1) x \<le> k"
      using Suc.prems by (intro Suc.IH) simp_all
    with True show ?thesis by simp
  next
    case False
    then have "pow2 e < pow2 k" using assms by linarith
    then have "e \<le> k" by simp
    with False Suc.prems(1) show ?thesis by simp
  qed
qed

lemma expo_small:
  assumes "0 < x" "x < pow2 (- 1022)"
  shows "expo x \<le> - 1022"
proof -
  have "pow2 (- 1022) \<le> pow2 (0 + 1)" by simp
  with assms(2) have "x < pow2 (0 + 1)" by linarith
  then show ?thesis unfolding expo_def using assms(2)
    by (intro expo_search_small) simp_all
qed


subsection \<open>Rounding to the nearest double\<close>

lemma round_even_err: "\<bar>of_int (round_even s) - s\<bar> \<le> 1 / 2"
proof -
  have "of_int \<lfloor>s\<rfloor> \<le> s" "s < of_int \<lfloor>s\<rfloor> + 1" by linarith+
  then show ?thesis by (auto simp: round_even_def Let_def)
qed

lemma round_even_of_int [simp]: "round_even (of_int k) = k"
  by (simp add: round_even_def)

lemma round_even_0 [simp]: "round_even 0 = 0"
  using round_even_of_int [of 0] by simp

lemma pow2_quot: "j \<le> k \<Longrightarrow> pow2 k / pow2 j = 2 ^ nat (k - j)"
  using pow2_diff [of k j, symmetric] by (simp add: pow2_def)

lemma fl_0 [simp]: "fl 0 = 0"
  by (simp add: fl_def)

lemma fl_minus: "fl (- x) = - fl x"
  by (simp add: fl_def Let_def sgn_minus)

lemma fl_eval:
  assumes "pow2 E \<le> x" "x < pow2 (E + 1)" "- 1022 \<le> E" "E \<le> 1100"
  shows "fl x = of_int (round_even (x / pow2 (E - 52))) * pow2 (E - 52)"
proof -
  have pos: "0 < x" using assms(1) pow2_pos [of E] by linarith
  have "expo x = E" using assms by (intro expo_eq) simp_all
  with pos assms(3) show ?thesis by (simp add: fl_def Let_def max_def)
qed

lemma fl_pos_unit:
  assumes "0 < x"
  shows "\<exists>e. fl x = of_int (round_even (x / pow2 (e - 52))) * pow2 (e - 52)
           \<and> (x < pow2 1100 \<longrightarrow> pow2 (e - 53) \<le> x * pow2 (- 53) + pow2 (- 1075))"
proof -
  from expo_exists [OF assms] obtain E where E: "pow2 E \<le> x" "x < pow2 (E + 1)" by blast
  let ?e = "max (expo x) (- 1022)"
  have f: "fl x = of_int (round_even (x / pow2 (?e - 52))) * pow2 (?e - 52)"
    using assms by (simp add: fl_def Let_def)
  have "pow2 (?e - 53) \<le> x * pow2 (- 53) + pow2 (- 1075)" if small: "x < pow2 1100"
  proof (cases "- 1022 \<le> E")
    case True
    from E(1) small have "pow2 E < pow2 1100" by linarith
    then have "E < 1100" by simp
    with True have "expo x = E" using E by (intro expo_eq) simp_all
    with True have eq: "?e = E" by simp
    have "pow2 (E - 53) = pow2 E * pow2 (- 53)"
      using pow2_add [of E "- 53"] by simp
    moreover have "pow2 E * pow2 (- 53) \<le> x * pow2 (- 53)"
      using E(1) by (simp add: mult_right_mono)
    moreover have "0 < pow2 (- 1075)" by simp
    ultimately show ?thesis unfolding eq by linarith
  next
    case False
    then have "pow2 (E + 1) \<le> pow2 (- 1022)" by simp
    with E(2) have "x < pow2 (- 1022)" by linarith
    with assms have "expo x \<le> - 1022" by (rule expo_small)
    then have "?e = - 1022" by simp
    moreover have "0 \<le> x * pow2 (- 53)" using assms by (intro mult_nonneg_nonneg) simp_all
    ultimately show ?thesis by simp
  qed
  with f show ?thesis by blast
qed

lemma fl_error_pos:
  assumes "0 < x" "x < pow2 1100"
  shows "\<bar>fl x - x\<bar> \<le> x * pow2 (- 53) + pow2 (- 1075)"
proof -
  from fl_pos_unit [OF assms(1)] assms(2) obtain e where
    f: "fl x = of_int (round_even (x / pow2 (e - 52))) * pow2 (e - 52)"
    and b: "pow2 (e - 53) \<le> x * pow2 (- 53) + pow2 (- 1075)" by blast
  let ?u = "pow2 (e - 52)"
  have u: "0 < ?u" by simp
  have "\<bar>of_int (round_even (x / ?u)) - x / ?u\<bar> \<le> 1 / 2" by (rule round_even_err)
  then have "\<bar>of_int (round_even (x / ?u)) - x / ?u\<bar> * ?u \<le> (1 / 2) * ?u"
    using u by (simp add: mult_right_mono del: pow2_pos)
  moreover have "\<bar>of_int (round_even (x / ?u)) - x / ?u\<bar> * ?u
                 = \<bar>of_int (round_even (x / ?u)) * ?u - x\<bar>"
  proof -
    have "\<bar>of_int (round_even (x / ?u)) - x / ?u\<bar> * ?u
          = \<bar>(of_int (round_even (x / ?u)) - x / ?u) * ?u\<bar>"
      using u by (simp add: abs_mult abs_of_pos del: pow2_pos)
    also have "(of_int (round_even (x / ?u)) - x / ?u) * ?u
               = of_int (round_even (x / ?u)) * ?u - x"
      by (simp add: field_simps)
    finally show ?thesis .
  qed
  moreover have "(1 / 2) * ?u = pow2 (e - 53)"
    using pow2_add [of "e - 53" 1] by (simp add: pow2_def)
  ultimately show ?thesis using f b by linarith
qed

lemma fl_error:
  assumes "\<bar>x\<bar> < pow2 1100"
  shows "\<bar>fl x - x\<bar> \<le> \<bar>x\<bar> * pow2 (- 53) + pow2 (- 1075)"
proof -
  consider "x = 0" | "0 < x" | "x < 0" by linarith
  then show ?thesis
  proof cases
    case 1
    then show ?thesis by (simp add: less_imp_le)
  next
    case 2
    with assms fl_error_pos [of x] show ?thesis by simp
  next
    case 3
    with assms fl_error_pos [of "- x"] show ?thesis by (simp add: fl_minus)
  qed
qed


subsection \<open>Numbers that are doubles\<close>

lemma exact_step:
  assumes "j \<le> k"
  shows "of_int (round_even (of_int m * pow2 k / pow2 j)) * pow2 j = of_int m * pow2 k"
proof -
  have q: "pow2 k / pow2 j = of_int (2 ^ nat (k - j))"
    using pow2_quot [OF assms] by simp
  have "of_int m * pow2 k / pow2 j = of_int m * (pow2 k / pow2 j)" by simp
  also have "\<dots> = of_int m * of_int (2 ^ nat (k - j))" by (simp only: q)
  also have "\<dots> = of_int (m * 2 ^ nat (k - j))" by simp
  finally have "of_int m * pow2 k / pow2 j = of_int (m * 2 ^ nat (k - j))" .
  then have "of_int (round_even (of_int m * pow2 k / pow2 j)) * pow2 j
             = of_int (m * 2 ^ nat (k - j)) * pow2 j"
    by (simp only: round_even_of_int)
  also have "\<dots> = of_int m * of_int (2 ^ nat (k - j)) * pow2 j" by simp
  also have "\<dots> = of_int m * (pow2 k / pow2 j) * pow2 j" by (simp only: q)
  also have "\<dots> = of_int m * pow2 k" by simp
  finally show ?thesis .
qed

lemma fl_exact_pos:
  assumes "0 < m" "m < 2 ^ 53" "- 1074 \<le> k" "k \<le> 1000"
  shows "fl (of_int m * pow2 k) = of_int m * pow2 k"
proof -
  let ?x = "of_int m * pow2 k :: real"
  have mpos: "0 < (of_int m :: real)" using assms(1) by simp
  have xpos: "0 < ?x" using mpos by simp
  from expo_exists [OF mpos] obtain J where
    J: "pow2 J \<le> of_int m" "of_int m < pow2 (J + 1)" by blast
  have "1 \<le> (of_int m :: real)" using assms(1) by simp
  with J(2) have "1 < pow2 (J + 1)" by linarith
  then have "pow2 0 < pow2 (J + 1)" by simp
  then have "0 < J + 1" by (simp only: pow2_less_iff)
  then have J0: "0 \<le> J" by simp
  have "(of_int m :: real) < pow2 53" using assms(2) by (simp add: pow2_def)
  with J(1) have "pow2 J < pow2 53" by linarith
  then have J53: "J \<le> 52" by simp
  let ?E = "J + k"
  have E1: "pow2 ?E \<le> ?x"
    using J(1) by (simp add: pow2_add mult_right_mono)
  have E2: "?x < pow2 (?E + 1)"
  proof -
    have "?x < pow2 (J + 1) * pow2 k" using J(2) by (simp add: mult_strict_right_mono)
    also have "\<dots> = pow2 (?E + 1)" using pow2_add [of "J + 1" k] by (simp add: ac_simps)
    finally show ?thesis .
  qed
  show ?thesis
  proof (cases "- 1022 \<le> ?E")
    case True
    have "fl ?x = of_int (round_even (?x / pow2 (?E - 52))) * pow2 (?E - 52)"
      using E1 E2 True assms(4) J53 by (intro fl_eval) simp_all
    also have "\<dots> = ?x" using J53 by (intro exact_step) simp
    finally show ?thesis .
  next
    case False
    then have "pow2 (?E + 1) \<le> pow2 (- 1022)" by simp
    with E2 have "?x < pow2 (- 1022)" by linarith
    with xpos have "expo ?x \<le> - 1022" by (rule expo_small)
    then have "max (expo ?x) (- 1022) = - 1022" by simp
    then have "fl ?x = of_int (round_even (?x / pow2 (- 1074))) * pow2 (- 1074)"
      using xpos by (simp add: fl_def Let_def abs_of_pos)
    also have "\<dots> = ?x" using assms(3) by (intro exact_step)
    finally show ?thesis .
  qed
qed

lemma fl_of_nat: "n < 2 ^ 53 \<Longrightarrow> fl (real n) = real n"
proof (cases "n = 0")
  case True
  then show ?thesis by simp
next
  case False
  assume "n < 2 ^ 53"
  then have "int n < 2 ^ 53" by (metis of_nat_less_iff of_nat_numeral of_nat_power)
  with False have "fl (of_int (int n) * pow2 0) = of_int (int n) * pow2 0"
    by (intro fl_exact_pos) simp_all
  then show ?thesis by simp
qed

lemma fl_of_int: "\<bar>n\<bar> < 2 ^ 53 \<Longrightarrow> fl (of_int n) = of_int n"
proof -
  assume a: "\<bar>n\<bar> < 2 ^ 53"
  consider "n = 0" | "0 < n" | "n < 0" by linarith
  then show ?thesis
  proof cases
    case 1
    then show ?thesis by simp
  next
    case 2
    with a have "fl (of_int n * pow2 0) = of_int n * pow2 0"
      by (intro fl_exact_pos) simp_all
    then show ?thesis by simp
  next
    case 3
    with a have "fl (of_int (- n) * pow2 0) = of_int (- n) * pow2 0"
      by (intro fl_exact_pos) simp_all
    then have "fl (- of_int n) = - of_int n" by simp
    then show ?thesis by (simp add: fl_minus)
  qed
qed

lemma fl_bound:
  assumes "\<bar>x\<bar> \<le> M" "1 \<le> M" "M \<le> 2 ^ 1000"
  shows "\<bar>fl x - x\<bar> \<le> M * pow2 (- 52)"
proof -
  have "(2::real) ^ 1000 < pow2 1100" by (simp add: pow2_def)
  with assms have "\<bar>x\<bar> < pow2 1100" by linarith
  then have e: "\<bar>fl x - x\<bar> \<le> \<bar>x\<bar> * pow2 (- 53) + pow2 (- 1075)" by (rule fl_error)
  have "\<bar>x\<bar> * pow2 (- 53) \<le> M * pow2 (- 53)"
    using assms(1) by (simp add: mult_right_mono)
  moreover have "pow2 (- 1075) \<le> 1 * pow2 (- 53)" by simp
  moreover have "1 * pow2 (- 53) \<le> M * pow2 (- 53)"
    using assms(2) by (intro mult_right_mono) simp_all
  moreover have "pow2 (- 52) = 2 * pow2 (- 53)"
    using pow2_add [of 1 "- 53"] by (simp add: pow2_def)
  then have "M * pow2 (- 52) = 2 * (M * pow2 (- 53))" by simp
  ultimately show ?thesis using e by linarith
qed

subsection \<open>The sign of a rounded difference, and overflow\<close>

lemma expo_search_lower:
  "pow2 e \<le> x \<or> e \<le> int n - 1100 \<Longrightarrow>
   pow2 (expo_search n e x) \<le> x \<or> expo_search n e x \<le> - 1100"
proof (induction n arbitrary: e)
  case 0
  then show ?case by simp
next
  case (Suc n)
  show ?case
  proof (cases "x < pow2 e")
    case True
    with Suc.prems have "e - 1 \<le> int n - 1100" by simp
    then have "pow2 (e - 1) \<le> x \<or> e - 1 \<le> int n - 1100" by simp
    from Suc.IH [OF this] True show ?thesis by simp
  next
    case False
    show ?thesis
    proof (cases "pow2 (e + 1) \<le> x")
      case True
      then have "pow2 (e + 1) \<le> x \<or> e + 1 \<le> int n - 1100" by simp
      from Suc.IH [OF this] True False show ?thesis by simp
    next
      case up: False
      with False show ?thesis by simp
    qed
  qed
qed

lemma expo_lower: "pow2 (expo x) \<le> x \<or> expo x \<le> - 1100"
  unfolding expo_def by (rule expo_search_lower) simp

lemma round_even_cases: "round_even s = \<lfloor>s\<rfloor> \<or> round_even s = \<lfloor>s\<rfloor> + 1"
  by (simp add: round_even_def Let_def)

lemma round_even_nonneg: "0 \<le> s \<Longrightarrow> 0 \<le> round_even s"
proof -
  assume "0 \<le> s"
  then have "0 \<le> \<lfloor>s\<rfloor>" by simp
  with round_even_cases [of s] show ?thesis by linarith
qed

lemma round_even_pos: "1 \<le> s \<Longrightarrow> 1 \<le> round_even s"
proof -
  assume "1 \<le> s"
  then have "1 \<le> \<lfloor>s\<rfloor>" by simp
  with round_even_cases [of s] show ?thesis by linarith
qed

lemma fl_pos_form:
  "0 < x \<Longrightarrow>
   fl x = of_int (round_even (x / pow2 (max (expo x) (- 1022) - 52)))
          * pow2 (max (expo x) (- 1022) - 52)"
  by (simp add: fl_def Let_def)

lemma fl_nonneg: "0 \<le> x \<Longrightarrow> 0 \<le> fl x"
proof (cases "x = 0")
  case True
  then show ?thesis by simp
next
  case False
  assume "0 \<le> x"
  with False have pos: "0 < x" by simp
  let ?u = "pow2 (max (expo x) (- 1022) - 52)"
  have "0 \<le> x / ?u" using pos by simp
  then have "0 \<le> round_even (x / ?u)" by (rule round_even_nonneg)
  then have "0 \<le> (of_int (round_even (x / ?u)) :: real) * ?u" by simp
  then show ?thesis unfolding fl_pos_form [OF pos] .
qed

lemma fl_pos:
  assumes "pow2 (- 1074) \<le> x"
  shows "0 < fl x"
proof -
  have "0 < pow2 (- 1074)" by simp
  with assms have pos: "0 < x" by linarith
  let ?e = "max (expo x) (- 1022)"
  let ?u = "pow2 (?e - 52)"
  have "?u \<le> x"
  proof (cases "expo x \<le> - 1022")
    case True
    then have "?e = - 1022" by simp
    then have "?u = pow2 (- 1074)" by simp
    with assms show ?thesis by simp
  next
    case False
    then have e: "?e = expo x" by simp
    from False expo_lower [of x] have "pow2 (expo x) \<le> x" by linarith
    moreover have "pow2 (expo x - 52) \<le> pow2 (expo x)" by simp
    ultimately show ?thesis unfolding e by linarith
  qed
  then have "1 \<le> x / ?u" by (simp add: le_divide_eq)
  then have "1 \<le> round_even (x / ?u)" by (rule round_even_pos)
  then have "0 < (of_int (round_even (x / ?u)) :: real)" by simp
  then have "0 < (of_int (round_even (x / ?u)) :: real) * ?u" by simp
  then show ?thesis unfolding fl_pos_form [OF pos] .
qed

lemma fl_grid: "\<exists>k::int. fl x = of_int k * pow2 (- 1074)"
proof (cases "x = 0")
  case True
  have "fl 0 = of_int 0 * pow2 (- 1074)" by simp
  with True show ?thesis by blast
next
  case False
  let ?e = "max (expo \<bar>x\<bar>) (- 1022)"
  let ?m = "round_even (\<bar>x\<bar> / pow2 (?e - 52))"
  have f: "fl x = sgn x * (of_int ?m * pow2 (?e - 52))"
    using False by (simp add: fl_def Let_def)
  have "- 1074 \<le> ?e - 52" by simp
  then have "pow2 (?e - 52) / pow2 (- 1074) = 2 ^ nat (?e - 52 - (- 1074))"
    by (rule pow2_quot)
  then have u: "pow2 (?e - 52) = of_int (2 ^ nat (?e - 52 - (- 1074))) * pow2 (- 1074)"
    by (simp add: field_simps)
  have "sgn x = 1 \<or> sgn x = - 1" using False by (auto simp: sgn_if)
  then show ?thesis
  proof
    assume "sgn x = 1"
    with f u have "fl x = of_int (?m * 2 ^ nat (?e - 52 - (- 1074))) * pow2 (- 1074)"
      by simp
    then show ?thesis by blast
  next
    assume "sgn x = - 1"
    with f u have "fl x = of_int (- (?m * 2 ^ nat (?e - 52 - (- 1074)))) * pow2 (- 1074)"
      by simp
    then show ?thesis by blast
  qed
qed

lemma js_sub_sign: "js_sub (fl a) (fl b) \<le> 0 \<longleftrightarrow> fl a \<le> fl b"
proof (cases "fl a \<le> fl b")
  case True
  then have "0 \<le> fl b - fl a" by simp
  then have "0 \<le> fl (fl b - fl a)" by (rule fl_nonneg)
  moreover have "fl (fl a - fl b) = - fl (fl b - fl a)"
    using fl_minus [of "fl b - fl a"] by simp
  ultimately show ?thesis using True by (simp add: js_sub_def)
next
  case False
  from fl_grid [of a] obtain j :: int where j: "fl a = of_int j * pow2 (- 1074)" by blast
  from fl_grid [of b] obtain k :: int where k: "fl b = of_int k * pow2 (- 1074)" by blast
  from False have "of_int k * pow2 (- 1074) < of_int j * pow2 (- 1074)"
    unfolding j k by simp
  then have "(of_int k :: real) < of_int j" by simp
  then have "k < j" by simp
  then have "1 \<le> j - k" by simp
  then have "(1::real) \<le> of_int (j - k)" by (simp only: of_int_1_le_iff)
  then have "1 * pow2 (- 1074) \<le> of_int (j - k) * pow2 (- 1074)"
    by (rule mult_right_mono) simp
  also have "\<dots> = fl a - fl b" unfolding j k by (simp add: algebra_simps)
  finally have "pow2 (- 1074) \<le> fl a - fl b" by simp
  then have "0 < fl (fl a - fl b)" by (rule fl_pos)
  with False show ?thesis by (simp add: js_sub_def)
qed

lemma overflow_threshold: "pow2 1023 \<le> pow2 1024 - pow2 970"
proof -
  have "pow2 1024 = pow2 1023 + pow2 1023" using pow2_add [of 1023 1] by (simp add: pow2_def)
  moreover have "pow2 970 \<le> pow2 1023" by simp
  ultimately show ?thesis by linarith
qed

lemma js_round_Num:
  assumes "\<bar>x\<bar> < pow2 1023"
  shows "js_round x = Num (fl x)"
proof -
  from assms overflow_threshold have "\<not> pow2 1024 - pow2 970 \<le> x" by linarith
  moreover from assms overflow_threshold have "\<not> x \<le> - (pow2 1024 - pow2 970)" by linarith
  ultimately show ?thesis by (simp only: js_round_def if_False)
qed

lemma js_round_small: "\<bar>x\<bar> < 2 ^ 53 \<Longrightarrow> js_round x = Num (fl x)"
proof (rule js_round_Num)
  assume "\<bar>x\<bar> < 2 ^ 53"
  moreover have "(2::real) ^ 53 = pow2 53" by (simp add: pow2_def)
  moreover have "pow2 53 < pow2 1023" by simp
  ultimately show "\<bar>x\<bar> < pow2 1023" by linarith
qed

subsection \<open>The score: distance from the exact formula\<close>

lemma fl_near:
  assumes "\<bar>x - v\<bar> \<le> e" "\<bar>v\<bar> + e \<le> M" "1 \<le> M" "M \<le> 2 ^ 1000"
  shows "\<bar>fl x - v\<bar> \<le> e + M * pow2 (- 52)"
proof -
  have "\<bar>x\<bar> \<le> M" using assms(1,2) by linarith
  then have "\<bar>fl x - x\<bar> \<le> M * pow2 (- 52)" using assms(3,4) by (rule fl_bound)
  with assms(1) show ?thesis by linarith
qed

lemma mul_near:
  fixes x v c e :: real
  assumes "\<bar>x - v\<bar> \<le> e" "\<bar>c\<bar> \<le> 1"
  shows "\<bar>x * c - v * c\<bar> \<le> e"
proof -
  have "x * c - v * c = (x - v) * c" by (simp add: algebra_simps)
  then have "\<bar>x * c - v * c\<bar> = \<bar>x - v\<bar> * \<bar>c\<bar>"
    by (simp only: abs_mult)
  also have "\<dots> \<le> e * 1"
    using assms by (intro mult_mono) simp_all
  finally show ?thesis by simp
qed

lemma delta_val: "pow2 (- 52) = 1 / 4503599627370496"
  by (simp add: pow2_def)

lemma c3_near: "\<bar>fl (3 / 10) - 3 / 10\<bar> \<le> pow2 (- 52)"
  using fl_bound [of "3 / 10" 1] by simp

lemma c4_near: "\<bar>fl (4 / 10) - 4 / 10\<bar> \<le> pow2 (- 52)"
  using fl_bound [of "4 / 10" 1] by simp

lemma score_approx:
  assumes "p \<le> 10000" "r \<le> 10000" "t \<le> 10000"
  shows "\<bar>calc_score p r t
          - (fl (3 / 10) * (1 / (real p + 1)) + fl (4 / 10) * (real r / 10)
             + fl (3 / 10) * (real t / 50))\<bar> \<le> 5000 * pow2 (- 52)"
proof -
  define d where "d = pow2 (- 52)"
  define c3 where "c3 = fl (3 / 10)"
  define c4 where "c4 = fl (4 / 10)"
  have dv: "d = 1 / 4503599627370496" unfolding d_def by (rule delta_val)
  have c3n: "\<bar>c3 - 3 / 10\<bar> \<le> d" unfolding c3_def d_def by (rule c3_near)
  have c4n: "\<bar>c4 - 4 / 10\<bar> \<le> d" unfolding c4_def d_def by (rule c4_near)
  have c31: "\<bar>c3\<bar> \<le> 1" using c3n dv by linarith
  have c41: "\<bar>c4\<bar> \<le> 1" using c4n dv by linarith
  have big: "(2000::real) \<le> 2 ^ 1000" by simp
  \<comment> \<open>the term of the pending reviews\<close>
  define a where "a = 1 / (real p + 1)"
  have a01: "0 \<le> a" "a \<le> 1" unfolding a_def by simp_all
  have q: "js_add (real p) 1 = real p + 1"
  proof -
    have "p + 1 < 2 ^ 53" using assms(1) by simp
    then have "fl (real (p + 1)) = real (p + 1)" by (rule fl_of_nat)
    then show ?thesis by (simp add: js_add_def add.commute)
  qed
  define ah where "ah = js_div 1 (js_add (real p) 1)"
  have ah: "\<bar>ah - a\<bar> \<le> d"
  proof -
    have "\<bar>fl a - a\<bar> \<le> 0 + 1 * pow2 (- 52)"
      using a01 by (intro fl_near) simp_all
    then show ?thesis unfolding ah_def js_div_def q a_def d_def by simp
  qed
  define A where "A = js_mul ah c3"
  have A: "\<bar>A - a * c3\<bar> \<le> 3 * d"
  proof -
    have 1: "\<bar>ah * c3 - a * c3\<bar> \<le> d" using ah c31 by (rule mul_near)
    have "\<bar>a * c3\<bar> \<le> 1 * 1"
      unfolding abs_mult using a01 c31 by (intro mult_mono) simp_all
    then have 2: "\<bar>a * c3\<bar> + d \<le> 2" using dv by linarith
    have "\<bar>fl (ah * c3) - a * c3\<bar> \<le> d + 2 * pow2 (- 52)"
      using 1 2 by (intro fl_near) simp_all
    then show ?thesis unfolding A_def js_mul_def d_def by simp
  qed
  \<comment> \<open>the term of the related files\<close>
  define b where "b = real r / 10"
  have b01: "0 \<le> b" "b \<le> 1000" unfolding b_def using assms(2) by simp_all
  define bh where "bh = js_div (real r) 10"
  have bh: "\<bar>bh - b\<bar> \<le> 1000 * d"
  proof -
    have "\<bar>fl b - b\<bar> \<le> 0 + 1000 * pow2 (- 52)"
      using b01 by (intro fl_near) simp_all
    then show ?thesis unfolding bh_def js_div_def b_def d_def by simp
  qed
  define B where "B = js_mul bh c4"
  have bc: "\<bar>b * c4\<bar> \<le> 1000"
  proof -
    have "\<bar>b * c4\<bar> \<le> 1000 * 1"
      unfolding abs_mult using b01 c41 by (intro mult_mono) simp_all
    then show ?thesis by simp
  qed
  have B: "\<bar>B - b * c4\<bar> \<le> 2001 * d"
  proof -
    have 1: "\<bar>bh * c4 - b * c4\<bar> \<le> 1000 * d" using bh c41 by (rule mul_near)
    have 2: "\<bar>b * c4\<bar> + 1000 * d \<le> 1001" using bc dv by linarith
    have "\<bar>fl (bh * c4) - b * c4\<bar> \<le> 1000 * d + 1001 * pow2 (- 52)"
      using 1 2 by (intro fl_near) simp_all
    then show ?thesis unfolding B_def js_mul_def d_def by simp
  qed
  \<comment> \<open>the term of the total reviews\<close>
  define c where "c = real t / 50"
  have c01: "0 \<le> c" "c \<le> 200" unfolding c_def using assms(3) by simp_all
  define ch where "ch = js_div (real t) 50"
  have ch: "\<bar>ch - c\<bar> \<le> 200 * d"
  proof -
    have "\<bar>fl c - c\<bar> \<le> 0 + 200 * pow2 (- 52)"
      using c01 by (intro fl_near) simp_all
    then show ?thesis unfolding ch_def js_div_def c_def d_def by simp
  qed
  define C where "C = js_mul ch c3"
  have cc: "\<bar>c * c3\<bar> \<le> 200"
  proof -
    have "\<bar>c * c3\<bar> \<le> 200 * 1"
      unfolding abs_mult using c01 c31 by (intro mult_mono) simp_all
    then show ?thesis by simp
  qed
  have C: "\<bar>C - c * c3\<bar> \<le> 401 * d"
  proof -
    have 1: "\<bar>ch * c3 - c * c3\<bar> \<le> 200 * d" using ch c31 by (rule mul_near)
    have 2: "\<bar>c * c3\<bar> + 200 * d \<le> 201" using cc dv by linarith
    have "\<bar>fl (ch * c3) - c * c3\<bar> \<le> 200 * d + 201 * pow2 (- 52)"
      using 1 2 by (intro fl_near) simp_all
    then show ?thesis unfolding C_def js_mul_def d_def by simp
  qed
  \<comment> \<open>the two sums\<close>
  have ac: "\<bar>a * c3\<bar> \<le> 1"
  proof -
    have "\<bar>a * c3\<bar> \<le> 1 * 1"
      unfolding abs_mult using a01 c31 by (intro mult_mono) simp_all
    then show ?thesis by simp
  qed
  define T where "T = js_add A B"
  have T: "\<bar>T - (a * c3 + b * c4)\<bar> \<le> 3006 * d"
  proof -
    have 1: "\<bar>(A + B) - (a * c3 + b * c4)\<bar> \<le> 2004 * d" using A B by linarith
    have 2: "\<bar>a * c3 + b * c4\<bar> + 2004 * d \<le> 1002" using ac bc dv by linarith
    have "\<bar>fl (A + B) - (a * c3 + b * c4)\<bar> \<le> 2004 * d + 1002 * pow2 (- 52)"
      using 1 2 by (intro fl_near) simp_all
    then show ?thesis unfolding T_def js_add_def d_def by simp
  qed
  have S: "\<bar>js_add T C - (a * c3 + b * c4 + c * c3)\<bar> \<le> 4610 * d"
  proof -
    have 1: "\<bar>(T + C) - (a * c3 + b * c4 + c * c3)\<bar> \<le> 3407 * d" using T C by linarith
    have 2: "\<bar>a * c3 + b * c4 + c * c3\<bar> + 3407 * d \<le> 1203" using ac bc cc dv by linarith
    have "\<bar>fl (T + C) - (a * c3 + b * c4 + c * c3)\<bar> \<le> 3407 * d + 1203 * pow2 (- 52)"
      using 1 2 by (intro fl_near) simp_all
    then show ?thesis unfolding js_add_def d_def by simp
  qed
  have "calc_score p r t = js_add T C"
    unfolding calc_score_def T_def A_def B_def C_def ah_def bh_def ch_def c3_def c4_def ..
  moreover have "0 \<le> d" unfolding d_def by simp
  ultimately show ?thesis
    using S unfolding a_def b_def c_def c3_def c4_def d_def
    by (simp add: mult.commute) 
qed

subsection \<open>The score: values\<close>

lemma fl_val:
  assumes "pow2 E \<le> x" "x < pow2 (E + 1)" "- 1022 \<le> E" "E \<le> 1100"
    and "round_even (x / pow2 (E - 52)) = m" and "of_int m * pow2 (E - 52) = y"
  shows "fl x = y"
  using fl_eval [OF assms(1-4)] assms(5,6) by simp

lemma fl_three_tenths: "fl (3 / 10) = 5404319552844595 / 18014398509481984"
  by (rule fl_val [where E = "- 2" and m = 5404319552844595])
     (simp_all add: pow2_def round_even_def Let_def)

lemma fl_four_tenths: "fl (4 / 10) = 3602879701896397 / 9007199254740992"
  by (rule fl_val [where E = "- 2" and m = 7205759403792794])
     (simp_all add: pow2_def round_even_def Let_def)

lemma calc_score_0_5_0: "calc_score 0 5 0 = 1 / 2"
proof -
  have q: "js_add (real 0) (1) = 1"
    unfolding js_add_def 
    by (rule fl_val [where E = "0" and m = 4503599627370496])
       (simp_all add: pow2_def round_even_def Let_def)
  have a: "js_div (1) (1) = 1"
    unfolding js_div_def 
    by (rule fl_val [where E = "0" and m = 4503599627370496])
       (simp_all add: pow2_def round_even_def Let_def)
  have A: "js_mul (1) (fl (3 / 10)) = 5404319552844595 / 18014398509481984"
    unfolding js_mul_def fl_three_tenths
    by (rule fl_val [where E = "-2" and m = 5404319552844595])
       (simp_all add: pow2_def round_even_def Let_def)
  have b: "js_div (real 5) (10) = 1 / 2"
    unfolding js_div_def 
    by (rule fl_val [where E = "-1" and m = 4503599627370496])
       (simp_all add: pow2_def round_even_def Let_def)
  have B: "js_mul (1 / 2) (fl (4 / 10)) = 3602879701896397 / 18014398509481984"
    unfolding js_mul_def fl_four_tenths
    by (rule fl_val [where E = "-3" and m = 7205759403792794])
       (simp_all add: pow2_def round_even_def Let_def)
  have T: "js_add (5404319552844595 / 18014398509481984) (3602879701896397 / 18014398509481984) = 1 / 2"
    unfolding js_add_def 
    by (rule fl_val [where E = "-1" and m = 4503599627370496])
       (simp_all add: pow2_def round_even_def Let_def)
  have c: "js_div (real 0) (50) = 0"
    by (simp add: js_div_def)
  have C: "js_mul (0) (fl (3 / 10)) = 0"
    by (simp add: js_mul_def)
  have S: "js_add (1 / 2) (0) = 1 / 2"
    unfolding js_add_def 
    by (rule fl_val [where E = "-1" and m = 4503599627370496])
       (simp_all add: pow2_def round_even_def Let_def)
  show ?thesis unfolding calc_score_def by (simp only: q a A b B T c C S)
qed

lemma calc_score_0_0_0: "calc_score 0 0 0 = 5404319552844595 / 18014398509481984"
proof -
  have q: "js_add (real 0) (1) = 1"
    unfolding js_add_def 
    by (rule fl_val [where E = "0" and m = 4503599627370496])
       (simp_all add: pow2_def round_even_def Let_def)
  have a: "js_div (1) (1) = 1"
    unfolding js_div_def 
    by (rule fl_val [where E = "0" and m = 4503599627370496])
       (simp_all add: pow2_def round_even_def Let_def)
  have A: "js_mul (1) (fl (3 / 10)) = 5404319552844595 / 18014398509481984"
    unfolding js_mul_def fl_three_tenths
    by (rule fl_val [where E = "-2" and m = 5404319552844595])
       (simp_all add: pow2_def round_even_def Let_def)
  have b: "js_div (real 0) (10) = 0"
    by (simp add: js_div_def)
  have B: "js_mul (0) (fl (4 / 10)) = 0"
    by (simp add: js_mul_def)
  have T: "js_add (5404319552844595 / 18014398509481984) (0) = 5404319552844595 / 18014398509481984"
    unfolding js_add_def 
    by (rule fl_val [where E = "-2" and m = 5404319552844595])
       (simp_all add: pow2_def round_even_def Let_def)
  have c: "js_div (real 0) (50) = 0"
    by (simp add: js_div_def)
  have C: "js_mul (0) (fl (3 / 10)) = 0"
    by (simp add: js_mul_def)
  have S: "js_add (5404319552844595 / 18014398509481984) (0) = 5404319552844595 / 18014398509481984"
    unfolding js_add_def 
    by (rule fl_val [where E = "-2" and m = 5404319552844595])
       (simp_all add: pow2_def round_even_def Let_def)
  show ?thesis unfolding calc_score_def by (simp only: q a A b B T c C S)
qed

lemma calc_score_1_8_5: "calc_score 1 8 5 = 4503599627370497 / 9007199254740992"
proof -
  have q: "js_add (real 1) (1) = 2"
    unfolding js_add_def 
    by (rule fl_val [where E = "1" and m = 4503599627370496])
       (simp_all add: pow2_def round_even_def Let_def)
  have a: "js_div (1) (2) = 1 / 2"
    unfolding js_div_def 
    by (rule fl_val [where E = "-1" and m = 4503599627370496])
       (simp_all add: pow2_def round_even_def Let_def)
  have A: "js_mul (1 / 2) (fl (3 / 10)) = 5404319552844595 / 36028797018963968"
    unfolding js_mul_def fl_three_tenths
    by (rule fl_val [where E = "-3" and m = 5404319552844595])
       (simp_all add: pow2_def round_even_def Let_def)
  have b: "js_div (real 8) (10) = 3602879701896397 / 4503599627370496"
    unfolding js_div_def 
    by (rule fl_val [where E = "-1" and m = 7205759403792794])
       (simp_all add: pow2_def round_even_def Let_def)
  have B: "js_mul (3602879701896397 / 4503599627370496) (fl (4 / 10)) = 1441151880758559 / 4503599627370496"
    unfolding js_mul_def fl_four_tenths
    by (rule fl_val [where E = "-2" and m = 5764607523034236])
       (simp_all add: pow2_def round_even_def Let_def)
  have T: "js_add (5404319552844595 / 36028797018963968) (1441151880758559 / 4503599627370496) = 4233383649728267 / 9007199254740992"
    unfolding js_add_def 
    by (rule fl_val [where E = "-2" and m = 8466767299456534])
       (simp_all add: pow2_def round_even_def Let_def)
  have c: "js_div (real 5) (50) = 3602879701896397 / 36028797018963968"
    unfolding js_div_def 
    by (rule fl_val [where E = "-4" and m = 7205759403792794])
       (simp_all add: pow2_def round_even_def Let_def)
  have C: "js_mul (3602879701896397 / 36028797018963968) (fl (3 / 10)) = 1080863910568919 / 36028797018963968"
    unfolding js_mul_def fl_three_tenths
    by (rule fl_val [where E = "-6" and m = 8646911284551352])
       (simp_all add: pow2_def round_even_def Let_def)
  have S: "js_add (4233383649728267 / 9007199254740992) (1080863910568919 / 36028797018963968) = 4503599627370497 / 9007199254740992"
    unfolding js_add_def 
    by (rule fl_val [where E = "-1" and m = 4503599627370497])
       (simp_all add: pow2_def round_even_def Let_def)
  show ?thesis unfolding calc_score_def by (simp only: q a A b B T c C S)
qed

lemma calc_score_42455140: "calc_score 42455140 10 50 = 788129942745763 / 1125899906842624"
proof -
  have q: "js_add (real 42455140) (1) = 42455141"
    unfolding js_add_def 
    by (rule fl_val [where E = "25" and m = 5698232566939648])
       (simp_all add: pow2_def round_even_def Let_def)
  have a: "js_div (1) (42455141) = 1779710582657453 / 75557863725914323419136"
    unfolding js_div_def 
    by (rule fl_val [where E = "-26" and m = 7118842330629812])
       (simp_all add: pow2_def round_even_def Let_def)
  have A: "js_mul (1779710582657453 / 75557863725914323419136) (fl (3 / 10)) = 4271305398377887 / 604462909807314587353088"
    unfolding js_mul_def fl_three_tenths
    by (rule fl_val [where E = "-28" and m = 8542610796755774])
       (simp_all add: pow2_def round_even_def Let_def)
  have b: "js_div (real 10) (10) = 1"
    unfolding js_div_def 
    by (rule fl_val [where E = "0" and m = 4503599627370496])
       (simp_all add: pow2_def round_even_def Let_def)
  have B: "js_mul (1) (fl (4 / 10)) = 3602879701896397 / 9007199254740992"
    unfolding js_mul_def fl_four_tenths
    by (rule fl_val [where E = "-2" and m = 7205759403792794])
       (simp_all add: pow2_def round_even_def Let_def)
  have T: "js_add (4271305398377887 / 604462909807314587353088) (3602879701896397 / 9007199254740992) = 3602879765543807 / 9007199254740992"
    unfolding js_add_def 
    by (rule fl_val [where E = "-2" and m = 7205759531087614])
       (simp_all add: pow2_def round_even_def Let_def)
  have c: "js_div (real 50) (50) = 1"
    unfolding js_div_def 
    by (rule fl_val [where E = "0" and m = 4503599627370496])
       (simp_all add: pow2_def round_even_def Let_def)
  have C: "js_mul (1) (fl (3 / 10)) = 5404319552844595 / 18014398509481984"
    unfolding js_mul_def fl_three_tenths
    by (rule fl_val [where E = "-2" and m = 5404319552844595])
       (simp_all add: pow2_def round_even_def Let_def)
  have S: "js_add (3602879765543807 / 9007199254740992) (5404319552844595 / 18014398509481984) = 788129942745763 / 1125899906842624"
    unfolding js_add_def 
    by (rule fl_val [where E = "-1" and m = 6305039541966104])
       (simp_all add: pow2_def round_even_def Let_def)
  show ?thesis unfolding calc_score_def by (simp only: q a A b B T c C S)
qed

lemma calc_score_42455141: "calc_score 42455141 10 50 = 788129942745763 / 1125899906842624"
proof -
  have q: "js_add (real 42455141) (1) = 42455142"
    unfolding js_add_def 
    by (rule fl_val [where E = "25" and m = 5698232701157376])
       (simp_all add: pow2_def round_even_def Let_def)
  have a: "js_div (1) (42455142) = 7118842162950657 / 302231454903657293676544"
    unfolding js_div_def 
    by (rule fl_val [where E = "-26" and m = 7118842162950657])
       (simp_all add: pow2_def round_even_def Let_def)
  have A: "js_mul (7118842162950657 / 302231454903657293676544) (fl (3 / 10)) = 2135652648885197 / 302231454903657293676544"
    unfolding js_mul_def fl_three_tenths
    by (rule fl_val [where E = "-28" and m = 8542610595540788])
       (simp_all add: pow2_def round_even_def Let_def)
  have b: "js_div (real 10) (10) = 1"
    unfolding js_div_def 
    by (rule fl_val [where E = "0" and m = 4503599627370496])
       (simp_all add: pow2_def round_even_def Let_def)
  have B: "js_mul (1) (fl (4 / 10)) = 3602879701896397 / 9007199254740992"
    unfolding js_mul_def fl_four_tenths
    by (rule fl_val [where E = "-2" and m = 7205759403792794])
       (simp_all add: pow2_def round_even_def Let_def)
  have T: "js_add (2135652648885197 / 302231454903657293676544) (3602879701896397 / 9007199254740992) = 1801439882771903 / 4503599627370496"
    unfolding js_add_def 
    by (rule fl_val [where E = "-2" and m = 7205759531087612])
       (simp_all add: pow2_def round_even_def Let_def)
  have c: "js_div (real 50) (50) = 1"
    unfolding js_div_def 
    by (rule fl_val [where E = "0" and m = 4503599627370496])
       (simp_all add: pow2_def round_even_def Let_def)
  have C: "js_mul (1) (fl (3 / 10)) = 5404319552844595 / 18014398509481984"
    unfolding js_mul_def fl_three_tenths
    by (rule fl_val [where E = "-2" and m = 5404319552844595])
       (simp_all add: pow2_def round_even_def Let_def)
  have S: "js_add (1801439882771903 / 4503599627370496) (5404319552844595 / 18014398509481984) = 788129942745763 / 1125899906842624"
    unfolding js_add_def 
    by (rule fl_val [where E = "-1" and m = 6305039541966104])
       (simp_all add: pow2_def round_even_def Let_def)
  show ?thesis unfolding calc_score_def by (simp only: q a A b B T c C S)
qed

subsection \<open>The score: monotonicity\<close>

lemma c3_lower: "29 / 100 \<le> fl (3 / 10)"
  using c3_near delta_val by linarith

lemma c4_lower: "39 / 100 \<le> fl (4 / 10)"
  using c4_near delta_val by linarith

lemma pending_gap:
  assumes "p < p'" "p' \<le> 10000"
  shows "1 / 100010000 \<le> 1 / (real p + 1) - 1 / (real p' + 1)"
proof -
  have le: "real p + 2 \<le> real p' + 1" using assms(1) by simp
  have "1 / (real p' + 1) \<le> 1 / (real p + 2)"
    using le by (intro divide_left_mono) simp_all
  moreover have "1 / (real p + 1) - 1 / (real p + 2) = 1 / ((real p + 1) * (real p + 2))"
    by (simp add: field_simps)
  moreover have "1 / (10000 * 10001) \<le> 1 / ((real p + 1) * (real p + 2))"
  proof -
    have "real p + 1 \<le> 10000" "real p + 2 \<le> 10001" using assms by simp_all
    then have "(real p + 1) * (real p + 2) \<le> 10000 * 10001"
      by (intro mult_mono) simp_all
    then show ?thesis by (intro divide_left_mono) simp_all
  qed
  moreover have "(1::real) / (10000 * 10001) = 1 / 100010000" by simp
  ultimately show ?thesis by linarith
qed

lemma score_strict_pending:
  assumes "p < p'" "p' \<le> 10000" "r \<le> 10000" "t \<le> 10000"
  shows "calc_score p' r t < calc_score p r t"
proof -
  let ?d = "pow2 (- 52)"
  let ?rest = "fl (4 / 10) * (real r / 10) + fl (3 / 10) * (real t / 50)"
  have p: "p \<le> 10000" using assms(1,2) by simp
  have 1: "\<bar>calc_score p r t - (fl (3 / 10) * (1 / (real p + 1)) + ?rest)\<bar> \<le> 5000 * ?d"
    using score_approx [OF p assms(3,4)] by (simp add: add.assoc)
  have 2: "\<bar>calc_score p' r t - (fl (3 / 10) * (1 / (real p' + 1)) + ?rest)\<bar> \<le> 5000 * ?d"
    using score_approx [OF assms(2,3,4)] by (simp add: add.assoc)
  have "(29 / 100) * (1 / 100010000)
        \<le> fl (3 / 10) * (1 / (real p + 1) - 1 / (real p' + 1))"
    using c3_lower pending_gap [OF assms(1,2)] by (intro mult_mono) simp_all
  then have 3: "29 / 10001000000
        \<le> fl (3 / 10) * (1 / (real p + 1)) - fl (3 / 10) * (1 / (real p' + 1))"
    by (simp add: right_diff_distrib)
  show ?thesis using 1 2 3 delta_val by linarith
qed

lemma score_strict_related:
  assumes "r < r'" "r' \<le> 10000" "p \<le> 10000" "t \<le> 10000"
  shows "calc_score p r t < calc_score p r' t"
proof -
  let ?d = "pow2 (- 52)"
  have r: "r \<le> 10000" using assms(1,2) by simp
  have 1: "\<bar>calc_score p r t - (fl (3 / 10) * (1 / (real p + 1)) + fl (4 / 10) * (real r / 10)
             + fl (3 / 10) * (real t / 50))\<bar> \<le> 5000 * ?d"
    by (rule score_approx [OF assms(3) r assms(4)])
  have 2: "\<bar>calc_score p r' t - (fl (3 / 10) * (1 / (real p + 1)) + fl (4 / 10) * (real r' / 10)
             + fl (3 / 10) * (real t / 50))\<bar> \<le> 5000 * ?d"
    by (rule score_approx [OF assms(3,2,4)])
  have "real r + 1 \<le> real r'" using assms(1) by simp
  then have "1 / 10 \<le> real r' / 10 - real r / 10" by simp
  then have "(39 / 100) * (1 / 10) \<le> fl (4 / 10) * (real r' / 10 - real r / 10)"
    using c4_lower by (intro mult_mono) simp_all
  then have 3: "39 / 1000 \<le> fl (4 / 10) * (real r' / 10) - fl (4 / 10) * (real r / 10)"
    by (simp add: right_diff_distrib)
  show ?thesis using 1 2 3 delta_val by linarith
qed

lemma score_close:
  assumes "p \<le> 10000" "r \<le> 10000" "t \<le> 10000"
  shows "\<bar>calc_score p r t
          - (0.3 * (1 / (real p + 1)) + 0.4 * (real r / 10) + 0.3 * (real t / 50))\<bar>
         \<le> 1 / 10 ^ 11"
proof -
  let ?d = "pow2 (- 52)"
  have a: "0 \<le> 1 / (real p + 1)" "1 / (real p + 1) \<le> 1" by simp_all
  have b: "0 \<le> real r / 10" "real r / 10 \<le> 1000" using assms(2) by simp_all
  have c: "0 \<le> real t / 50" "real t / 50 \<le> 200" using assms(3) by simp_all
  have ea: "\<bar>fl (3 / 10) * (1 / (real p + 1)) - 3 / 10 * (1 / (real p + 1))\<bar> \<le> ?d * 1"
  proof -
    have "fl (3 / 10) * (1 / (real p + 1)) - 3 / 10 * (1 / (real p + 1))
          = (fl (3 / 10) - 3 / 10) * (1 / (real p + 1))" by (simp add: algebra_simps)
    then have "\<bar>fl (3 / 10) * (1 / (real p + 1)) - 3 / 10 * (1 / (real p + 1))\<bar>
          = \<bar>fl (3 / 10) - 3 / 10\<bar> * \<bar>1 / (real p + 1)\<bar>" by (simp only: abs_mult)
    also have "\<dots> \<le> ?d * 1" using c3_near a by (intro mult_mono) simp_all
    finally show ?thesis .
  qed
  have eb: "\<bar>fl (4 / 10) * (real r / 10) - 4 / 10 * (real r / 10)\<bar> \<le> ?d * 1000"
  proof -
    have "fl (4 / 10) * (real r / 10) - 4 / 10 * (real r / 10)
          = (fl (4 / 10) - 4 / 10) * (real r / 10)" by (simp add: algebra_simps)
    then have "\<bar>fl (4 / 10) * (real r / 10) - 4 / 10 * (real r / 10)\<bar>
          = \<bar>fl (4 / 10) - 4 / 10\<bar> * \<bar>real r / 10\<bar>" by (simp only: abs_mult)
    also have "\<dots> \<le> ?d * 1000" using c4_near b by (intro mult_mono) simp_all
    finally show ?thesis .
  qed
  have ec: "\<bar>fl (3 / 10) * (real t / 50) - 3 / 10 * (real t / 50)\<bar> \<le> ?d * 200"
  proof -
    have "fl (3 / 10) * (real t / 50) - 3 / 10 * (real t / 50)
          = (fl (3 / 10) - 3 / 10) * (real t / 50)" by (simp add: algebra_simps)
    then have "\<bar>fl (3 / 10) * (real t / 50) - 3 / 10 * (real t / 50)\<bar>
          = \<bar>fl (3 / 10) - 3 / 10\<bar> * \<bar>real t / 50\<bar>" by (simp only: abs_mult)
    also have "\<dots> \<le> ?d * 200" using c3_near c by (intro mult_mono) simp_all
    finally show ?thesis .
  qed
  have "\<bar>calc_score p r t - (3 / 10 * (1 / (real p + 1)) + 4 / 10 * (real r / 10)
          + 3 / 10 * (real t / 50))\<bar> \<le> 1 / 100000000000"
    using score_approx [OF assms] ea eb ec delta_val by linarith
  then show ?thesis by simp
qed

section \<open>Properties of the client and of the ranking\<close>

lemma getPullRequestByOwner_loop_outer:
  "getPullRequestByOwner_loop E ow repos outer = Inr prs \<Longrightarrow> prs = outer"
  by (induction repos) (auto split: sum.splits)

lemma getPullRequestByOwner_empty: "getPullRequestByOwner E ow = Inr prs \<Longrightarrow> prs = []"
  by (auto simp: getPullRequestByOwner_def split: sum.splits dest: getPullRequestByOwner_loop_outer)

text \<open>
  Claim C1 (the code departs from it). The specification says that the function returns
  the pull requests of every repository of the organisation, concatenated. For the
  example organisation, whose only repository lists four pull requests, the function
  returns the empty array: by \<open>getPullRequestByOwner_empty\<close> it never returns anything
  else.
\<close>

theorem getPullRequestByOwner_acme:
  "getPullRequestByOwner acme ''acme'' = Inr []
   \<and> repos_listForOrg acme ''acme'' = Inr [''widgets'']
   \<and> pulls_list acme ''acme'' ''widgets'' Owner_repo_only = Inr [pr_A, pr_B, pr_C, pr_old]
   \<and> concat_pulls acme ''acme'' [''widgets''] = [pr_A, pr_B, pr_C, pr_old]"
  by (simp add: getPullRequestByOwner_def getOctokit_def acme_def)

lemma buddy_filter_iff:
  "buddy_filter d b \<longleftrightarrow> \<not> (m_login b \<in> set (d_reviewers d) \<and> m_login b = pr_user_login (d_pr d))"
  by (auto simp: buddy_filter_def list_ex_iff)

text \<open>
  Claim C2 (the code departs from it). The comment on the filter says that the author
  and the reviewers already requested are excluded. For the pull request A, written by
  alice with bob requested, the filter keeps alice and keeps bob: by
  \<open>buddy_filter_iff\<close> it only drops a candidate who is both the author and a requested
  reviewer.
\<close>

theorem buddy_filter_keeps_author_and_requested:
  "buddy_filter \<lparr>d_pr = pr_A, d_files = [], d_reviewers = [''bob'']\<rparr> \<lparr>m_login = ''alice'', m_name = None\<rparr>
   \<and> buddy_filter \<lparr>d_pr = pr_A, d_files = [], d_reviewers = [''bob'']\<rparr> \<lparr>m_login = ''bob'', m_name = None\<rparr>
   \<and> filter (buddy_filter \<lparr>d_pr = pr_A, d_files = [], d_reviewers = [''bob'']\<rparr>)
        [\<lparr>m_login = ''alice'', m_name = None\<rparr>, \<lparr>m_login = ''bob'', m_name = None\<rparr>,
         \<lparr>m_login = ''carol'', m_name = None\<rparr>]
      = [\<lparr>m_login = ''alice'', m_name = None\<rparr>, \<lparr>m_login = ''bob'', m_name = None\<rparr>,
         \<lparr>m_login = ''carol'', m_name = None\<rparr>]"
  by (simp add: buddy_filter_def pr_A_def)

theorem buddy_filter_keeps_author_and_requested_witness:
  "map m_login
     (filter (buddy_filter \<lparr>d_pr = pr_A, d_files = [], d_reviewers = [''bob'']\<rparr>)
        [\<lparr>m_login = ''alice'', m_name = None\<rparr>, \<lparr>m_login = ''bob'', m_name = None\<rparr>,
         \<lparr>m_login = ''carol'', m_name = None\<rparr>])
   = [''alice'', ''bob'', ''carol'']"
  using buddy_filter_keeps_author_and_requested by (simp add: buddy_filter_def pr_A_def)

text \<open>
  Claim C3 (the code departs from it). For a pull request or a repository that does not
  exist, \<^verbatim>\<open>pulls.get\<close> throws outside the \<^verbatim>\<open>try\<close> and the call ends with the
  request error, not with null; a failure of \<^verbatim>\<open>pulls.listFiles\<close>, inside the
  \<^verbatim>\<open>try\<close>, does give null; with both calls successful the result has the form
  \<open>{pr, files, reviewers}\<close>.
\<close>

theorem getPullRequestDetails_not_found_raises:
  "getPullRequestDetails acme (Some \<lparr>pp_owner = ''acme'', pp_repo = ''widgets'', pp_pullNumber = 99\<rparr>)
     = Inl (RequestError 404)
   \<and> getPullRequestDetails acme (Some \<lparr>pp_owner = ''acme'', pp_repo = ''gadgets'', pp_pullNumber = 1\<rparr>)
     = Inl (RequestError 404)
   \<and> getPullRequestDetails (acme\<lparr>pulls_listFiles := \<lambda>ow rp n. Inl (RequestError 404)\<rparr>)
       (Some \<lparr>pp_owner = ''acme'', pp_repo = ''widgets'', pp_pullNumber = 1\<rparr>) = Inr None
   \<and> getPullRequestDetails acme (Some \<lparr>pp_owner = ''acme'', pp_repo = ''widgets'', pp_pullNumber = 1\<rparr>)
     = Inr (Some \<lparr>d_pr = pr_A, d_files = [\<lparr>filename = ''x.ts''\<rparr>, \<lparr>filename = ''y.ts''\<rparr>],
                  d_reviewers = [''bob'']\<rparr>)"
  by (simp add: getPullRequestDetails_def getOctokit_def acme_def acme_files_def pr_A_def)

lemma getPullRequestDetails_cases:
  "getOctokit E = Inr () \<Longrightarrow>
   getPullRequestDetails E (Some p) =
     (case pulls_get E (pp_owner p) (pp_repo p) (pp_pullNumber p) of
        Inl e \<Rightarrow> Inl e
      | Inr pr_data \<Rightarrow>
          (case pulls_listFiles E (pp_owner p) (pp_repo p) (pp_pullNumber p) of
             Inl e \<Rightarrow> Inr None
           | Inr fs \<Rightarrow> Inr (Some \<lparr>d_pr = pr_data, d_files = fs,
                                 d_reviewers = (case pr_requested_reviewers pr_data of None \<Rightarrow> [] | Some rs \<Rightarrow> rs)\<rparr>)))"
  by (simp add: getPullRequestDetails_def)

text \<open>
  Claim C5, as amended. For counts up to 10000 the score, computed in doubles, is within
  \<open>10^-11\<close> of \<open>0.3 \<times> (1 / (pendingReviews + 1)) + 0.4 \<times> (relatedFileChanges / 10)
  + 0.3 \<times> (totalReviews / 50)\<close>; with the other two inputs fixed it is strictly
  decreasing in \<open>pendingReviews\<close> and strictly increasing in \<open>relatedFileChanges\<close>.
\<close>

theorem score_formula_monotone:
  "p \<le> 10000 \<and> r \<le> 10000 \<and> t \<le> 10000 \<longrightarrow>
     \<bar>calc_score p r t
        - (0.3 * (1 / (real p + 1)) + 0.4 * (real r / 10) + 0.3 * (real t / 50))\<bar> \<le> 1 / 10 ^ 11
     \<and> (p < p' \<and> p' \<le> 10000 \<longrightarrow> calc_score p' r t < calc_score p r t)
     \<and> (r < r' \<and> r' \<le> 10000 \<longrightarrow> calc_score p r t < calc_score p r' t)"
proof (intro impI conjI)
  assume a: "p \<le> 10000 \<and> r \<le> 10000 \<and> t \<le> 10000"
  then have p: "p \<le> 10000" and r: "r \<le> 10000" and t: "t \<le> 10000" by simp_all
  show "\<bar>calc_score p r t
        - (0.3 * (1 / (real p + 1)) + 0.4 * (real r / 10) + 0.3 * (real t / 50))\<bar> \<le> 1 / 10 ^ 11"
    by (rule score_close [OF p r t])
  show "calc_score p' r t < calc_score p r t" if "p < p' \<and> p' \<le> 10000"
    using that r t by (intro score_strict_pending) simp_all
  show "calc_score p r t < calc_score p r' t" if "r < r' \<and> r' \<le> 10000"
    using that p t by (intro score_strict_related) simp_all
qed

theorem score_formula_monotone_witness:
  "\<bar>calc_score 1 2 7 - 34 / 125\<bar> \<le> 1 / 10 ^ 11 \<and> calc_score 3 2 7 < calc_score 1 2 7
   \<and> calc_score 1 2 7 < calc_score 1 4 7"
  using score_formula_monotone [of 1 2 7 3 4] by simp

text \<open>
  Claim C5 as stated fails in doubles. The score of one pending review, 8 related
  changes and 5 reviews is the double above 0.5, where the formula over exact numbers
  gives 0.5; and the scores of 42455140 and of 42455141 pending reviews (10 related
  changes, 50 reviews) are the same double, so the score does not strictly decrease.
\<close>

theorem score_rounded_and_tied:
  "calc_score 1 8 5 \<noteq> 0.3 * (1 / (1 + 1)) + 0.4 * (8 / 10) + 0.3 * (5 / 50)
   \<and> calc_score 1 8 5 = 1 / 2 + 1 / 2 ^ 53
   \<and> calc_score 42455141 10 50 = calc_score 42455140 10 50"
  unfolding calc_score_1_8_5 calc_score_42455140 calc_score_42455141 by simp

lemma by_score_desc_sign:
  assumes "\<exists>u. score a = fl u" and "\<exists>u. score b = fl u"
  shows "by_score_desc a b \<le> 0 \<longleftrightarrow> score b \<le> score a"
proof -
  from assms obtain u v where "score a = fl u" "score b = fl v" by blast
  then show ?thesis unfolding by_score_desc_def by (simp only: js_sub_sign)
qed

lemma insert_by_insort_key:
  assumes "\<exists>u. score x = fl u" and "\<forall>r \<in> set xs. \<exists>u. score r = fl u"
  shows "insert_by by_score_desc x xs = insort_key (\<lambda>r. - score r) x xs"
  using assms(2) by (induction xs) (simp_all add: by_score_desc_sign [OF assms(1)])

lemma sort_by_sort_key:
  assumes "\<forall>r \<in> set xs. \<exists>u. score r = fl u"
  shows "sort_by by_score_desc xs = sort_key (\<lambda>r. - score r) xs"
  using assms
proof (induction xs)
  case Nil
  then show ?case by simp
next
  case (Cons x xs)
  then have x: "\<exists>u. score x = fl u" and xs: "\<forall>r \<in> set xs. \<exists>u. score r = fl u" by simp_all
  from xs have "\<forall>r \<in> set (sort_key (\<lambda>r. - score r) xs). \<exists>u. score r = fl u" by simp
  from insert_by_insort_key [OF x this] Cons.IH [OF xs] show ?case by simp
qed

lemma score_with_score:
  "score (with_score d)
   = calc_score (pendingReviews d) (rd_relatedFileChanges d) (rd_totalReviews d)"
  by (simp add: with_score_def ReviewerDetails.extend_def ScoredReviewer.fields_def)

lemma with_score_double: "\<forall>r \<in> set (map with_score ds). \<exists>u. score r = fl u"
  by (auto simp: score_with_score calc_score_def js_add_def)

lemma sort_by_sorted:
  assumes "\<forall>r \<in> set xs. \<exists>u. score r = fl u"
  shows "sorted_wrt (\<lambda>a b. score b \<le> score a) (sort_by by_score_desc xs)"
proof -
  have "sorted (map (\<lambda>r. - score r) (sort_key (\<lambda>r. - score r) xs))"
    by (rule sorted_sort_key)
  then show ?thesis
    by (simp add: sort_by_sort_key [OF assms] sorted_map)
qed

lemma sort_by_mset:
  "\<forall>r \<in> set xs. \<exists>u. score r = fl u \<Longrightarrow> mset (sort_by by_score_desc xs) = mset xs"
  by (simp add: sort_by_sort_key)

lemma sort_by_stable:
  assumes "\<forall>r \<in> set xs. \<exists>u. score r = fl u"
  shows "filter (\<lambda>r. score r = v) (sort_by by_score_desc xs) = filter (\<lambda>r. score r = v) xs"
proof -
  have "filter (\<lambda>r. - score r = - v) (sort_key (\<lambda>r. - score r) xs)
        = filter (\<lambda>r. - score r = - v) xs"
    by (rule sort_key_stable)
  then show ?thesis by (simp add: sort_by_sort_key [OF assms])
qed

lemma fl_half: "fl (1 / 2) = 1 / 2"
  by (rule fl_val [where E = "- 1" and m = 4503599627370496])
     (simp_all add: pow2_def round_even_def Let_def)

lemma three_tenths_below_half: "fl (3 / 10) < 1 / 2"
  by (simp add: fl_three_tenths)

lemma sort_half_half_three_tenths:
  assumes "score a = 1 / 2" "score b = 1 / 2" "score d = fl (3 / 10)"
  shows "sort_by by_score_desc [a, b, d] = [a, b, d]"
proof -
  have "\<forall>r \<in> set [a, b, d]. \<exists>u. score r = fl u"
    using assms fl_half by (metis insert_iff list.simps(15) empty_iff empty_set)
  then have "sort_by by_score_desc [a, b, d] = sort_key (\<lambda>r. - score r) [a, b, d]"
    by (rule sort_by_sort_key)
  also have "\<dots> = [a, b, d]"
    using assms three_tenths_below_half by simp
  finally show ?thesis .
qed

text \<open>
  Claim C7. The scored candidates are sorted by descending score; the sorted list has
  the same elements; candidates with equal scores keep their input order; the result is
  the first \<open>count\<close> elements of the sorted list for a count that is not negative, and
  the first 10 when no count is given; candidates with scores 0.5, 0.5, 0.3 (as
  doubles) in the input order A, B, C and count 2 give A, B.
\<close>

theorem ranked_output:
  "sorted_wrt (\<lambda>a b. score b \<le> score a) (sort_by by_score_desc (map with_score ds))
   \<and> mset (sort_by by_score_desc (map with_score ds)) = mset (map with_score ds)
   \<and> (\<forall>v. filter (\<lambda>r. score r = v) (sort_by by_score_desc (map with_score ds))
            = filter (\<lambda>r. score r = v) (map with_score ds))
   \<and> (0 \<le> c \<longrightarrow> scoredReviewers (Some c) ds
                    = take (nat c) (sort_by by_score_desc (map with_score ds)))
   \<and> scoredReviewers None ds = take 10 (sort_by by_score_desc (map with_score ds))
   \<and> (score a = 0.5 \<and> score b = 0.5 \<and> score d = fl 0.3
        \<longrightarrow> slice0 2 (sort_by by_score_desc [a, b, d]) = [a, b])"
proof (intro conjI allI impI)
  note dbl = with_score_double [of ds]
  show "sorted_wrt (\<lambda>a b. score b \<le> score a) (sort_by by_score_desc (map with_score ds))"
    by (rule sort_by_sorted [OF dbl])
  show "mset (sort_by by_score_desc (map with_score ds)) = mset (map with_score ds)"
    by (rule sort_by_mset [OF dbl])
  show "filter (\<lambda>r. score r = v) (sort_by by_score_desc (map with_score ds))
        = filter (\<lambda>r. score r = v) (map with_score ds)" for v
    by (rule sort_by_stable [OF dbl])
  show "scoredReviewers (Some c) ds = take (nat c) (sort_by by_score_desc (map with_score ds))"
    if "0 \<le> c"
    using that by (simp add: scoredReviewers_def slice0_def)
  show "scoredReviewers None ds = take 10 (sort_by by_score_desc (map with_score ds))"
    by (simp add: scoredReviewers_def slice0_def)
  show "slice0 2 (sort_by by_score_desc [a, b, d]) = [a, b]"
    if "score a = 0.5 \<and> score b = 0.5 \<and> score d = fl 0.3"
  proof -
    from that have "score a = 1 / 2" "score b = 1 / 2" "score d = fl (3 / 10)" by simp_all
    then have "sort_by by_score_desc [a, b, d] = [a, b, d]"
      by (rule sort_half_half_three_tenths)
    then show ?thesis by (simp add: slice0_def)
  qed
qed

lemma cand_scores:
  "score (with_score cand_A) = 1 / 2"
  "score (with_score cand_B) = 1 / 2"
  "score (with_score cand_C) = fl (3 / 10)"
  "score (with_score cand_D) = 1 / 2 + 1 / 2 ^ 53"
  by (simp_all add: score_with_score cand_A_def cand_B_def cand_C_def cand_D_def
      calc_score_0_5_0 calc_score_0_0_0 calc_score_1_8_5 fl_three_tenths del: One_nat_def)

lemma sort_key_A_D_C:
  "sort_key (\<lambda>r. - score r) [with_score cand_A, with_score cand_D, with_score cand_C]
   = [with_score cand_D, with_score cand_A, with_score cand_C]"
  by (simp add: cand_scores fl_three_tenths)

lemma sort_key_C_B_A:
  "sort_key (\<lambda>r. - score r) [with_score cand_C, with_score cand_B, with_score cand_A]
   = [with_score cand_B, with_score cand_A, with_score cand_C]"
  by (simp add: cand_scores fl_three_tenths)

theorem ranked_output_witness:
  "map score (map with_score [cand_A, cand_B, cand_C]) = [0.5, 0.5, fl 0.3]
   \<and> scoredReviewers (Some 2) [cand_A, cand_B, cand_C] = [with_score cand_A, with_score cand_B]
   \<and> scoredReviewers (Some 2) [cand_C, cand_B, cand_A] = [with_score cand_B, with_score cand_A]
   \<and> slice0 2 (sort_by by_score_desc [with_score cand_A, with_score cand_B, with_score cand_C])
       = [with_score cand_A, with_score cand_B]
   \<and> map score (map with_score [cand_A, cand_D, cand_C]) = [0.5, 0.5 + 1 / 2 ^ 53, fl 0.3]
   \<and> scoredReviewers (Some 2) [cand_A, cand_D, cand_C] = [with_score cand_D, with_score cand_A]"
proof -
  have s: "score (with_score cand_A) = 0.5 \<and> score (with_score cand_B) = 0.5
           \<and> score (with_score cand_C) = fl 0.3"
    by (simp add: cand_scores)
  have abc: "sort_by by_score_desc [with_score cand_A, with_score cand_B, with_score cand_C]
             = [with_score cand_A, with_score cand_B, with_score cand_C]"
    by (rule sort_half_half_three_tenths) (simp_all add: cand_scores)
  have cba: "sort_by by_score_desc (map with_score [cand_C, cand_B, cand_A])
             = [with_score cand_B, with_score cand_A, with_score cand_C]"
    using sort_by_sort_key [OF with_score_double [of "[cand_C, cand_B, cand_A]"]] sort_key_C_B_A
    by simp
  have adc: "sort_by by_score_desc (map with_score [cand_A, cand_D, cand_C])
             = [with_score cand_D, with_score cand_A, with_score cand_C]"
    using sort_by_sort_key [OF with_score_double [of "[cand_A, cand_D, cand_C]"]] sort_key_A_D_C
    by simp
  have 1: "scoredReviewers (Some 2) [cand_A, cand_B, cand_C]
           = [with_score cand_A, with_score cand_B]
           \<and> slice0 2 (sort_by by_score_desc [with_score cand_A, with_score cand_B, with_score cand_C])
             = [with_score cand_A, with_score cand_B]"
    using ranked_output [of "[cand_A, cand_B, cand_C]" 2 "with_score cand_A" "with_score cand_B"
        "with_score cand_C"] s abc
    by simp
  have 2: "scoredReviewers (Some 2) [cand_C, cand_B, cand_A]
           = [with_score cand_B, with_score cand_A]"
    using ranked_output [of "[cand_C, cand_B, cand_A]" 2] cba by simp
  have 3: "scoredReviewers (Some 2) [cand_A, cand_D, cand_C]
           = [with_score cand_D, with_score cand_A]"
    using ranked_output [of "[cand_A, cand_D, cand_C]" 2] adc by simp
  have 4: "map score (map with_score [cand_A, cand_B, cand_C]) = [0.5, 0.5, fl 0.3]"
    by (simp add: cand_scores)
  have 5: "map score (map with_score [cand_A, cand_D, cand_C]) = [0.5, 0.5 + 1 / 2 ^ 53, fl 0.3]"
    by (simp add: cand_scores)
  from 1 2 3 4 5 show ?thesis by (simp only: simp_thms)
qed

section \<open>Properties of parsePullRequestUrl\<close>

subsection \<open>The matcher on the expression of the file\<close>

lemma run_Lit_append: "run (Lit l) (l @ t, caps) = [(t, caps)]"
  by simp

lemma run_Lit_elim:
  assumes "(s', caps') \<in> set (run (Lit l) (s, caps))"
  shows "s = l @ s' \<and> caps' = caps"
proof -
  from assms have t: "take (length l) s = l" and d: "s' = drop (length l) s" and c: "caps' = caps"
    by (auto split: if_splits)
  have "s = take (length l) s @ drop (length l) s" by simp
  with t d c show ?thesis by simp
qed

lemma run_Seq_elim:
  "st'' \<in> set (run (Seq r1 r2) st) \<Longrightarrow> \<exists>st' \<in> set (run r1 st). st'' \<in> set (run r2 st')"
  by auto

lemma run_Opt_Lit_elim:
  "(s', caps') \<in> set (run (Opt (Lit l)) (s, caps)) \<Longrightarrow> caps' = caps \<and> (s = l @ s' \<or> s = s')"
  using run_Lit_elim [of s' caps' l s caps] by (auto split: if_splits)

lemma run_Group_Plus:
  "run (Group (Plus c)) (s, caps) =
     map (\<lambda>k. (drop k s, caps @ [take k s])) (rev [1..<Suc (length (takeWhile (cls_match c) s))])"
proof -
  have "k \<le> length s \<Longrightarrow> length s - length (drop k s) = k" for k by simp
  moreover have "length (takeWhile (cls_match c) s) \<le> length s"
    by (rule length_takeWhile_le)
  ultimately show ?thesis by (auto simp: comp_def)
qed

lemma run_Group_Plus_elim:
  assumes "(s', caps') \<in> set (run (Group (Plus c)) (s, caps))"
  shows "\<exists>x. x \<noteq> [] \<and> (\<forall>ch \<in> set x. cls_match c ch) \<and> s = x @ s' \<and> caps' = caps @ [x]"
proof -
  let ?n = "length (takeWhile (cls_match c) s)"
  from assms obtain k where k: "1 \<le> k" "k \<le> ?n" and s': "s' = drop k s"
    and c': "caps' = caps @ [take k s]"
    unfolding run_Group_Plus by auto
  have le: "?n \<le> length s" by (rule length_takeWhile_le)
  have "take k s = take k (takeWhile (cls_match c) s @ dropWhile (cls_match c) s)"
    by simp
  also have "\<dots> = take k (takeWhile (cls_match c) s)"
    using k by (simp del: takeWhile_dropWhile_id)
  finally have "take k s = take k (takeWhile (cls_match c) s)" .
  then have "\<forall>ch \<in> set (take k s). cls_match c ch"
    by (metis in_set_takeD set_takeWhileD)
  moreover have "take k s \<noteq> []" using k le by auto
  moreover have "s = take k s @ s'" using s' by simp
  ultimately show ?thesis using c' by blast
qed


lemma concat_map_rev_upt:
  assumes "1 \<le> n" and "\<And>k. 1 \<le> k \<Longrightarrow> k < n \<Longrightarrow> f k = []"
  shows "concat (map f (rev [1..<Suc n])) = f n"
proof -
  have "concat (map f (rev [1..<n])) = []"
    using assms(2) by simp
  then show ?thesis using assms(1) by simp
qed

lemma run_segment:
  assumes "x \<noteq> []" and "a \<notin> set x"
  shows "run (Seq (Group (Plus (NotChr a))) (Seq (Lit (a # l)) r)) (x @ a # l @ t, caps)
         = run r (t, caps @ [x])"
proof -
  let ?s = "x @ a # l @ t"
  let ?f = "\<lambda>k. run (Seq (Lit (a # l)) r) (drop k ?s, caps @ [take k ?s])"
  have tw: "takeWhile (cls_match (NotChr a)) ?s = x"
    using assms(2) by (subst takeWhile_append2) auto
  have n: "1 \<le> length x" using assms(1) by (cases x) simp_all
  have fail: "?f k = []" if "1 \<le> k" "k < length x" for k
  proof -
    from that obtain y ys where d: "drop k x = y # ys"
      by (cases "drop k x") simp_all
    then have "y \<in> set x" by (metis in_set_dropD list.set_intros(1))
    with assms(2) have "y \<noteq> a" by auto
    with d that show ?thesis by simp
  qed
  have "run (Seq (Group (Plus (NotChr a))) (Seq (Lit (a # l)) r)) (?s, caps)
        = concat (map ?f (rev [1..<Suc (length x)]))"
    by (simp only: run.simps(5) run_Group_Plus tw map_map comp_def)
  also have "\<dots> = ?f (length x)"
    using n fail by (rule concat_map_rev_upt)
  also have "\<dots> = run r (t, caps @ [x])"
    by simp
  finally show ?thesis .
qed

lemma run_scheme:
  assumes "scheme = ''http'' \<or> scheme = ''https''"
  shows "run (Seq (Lit ''http'') (Seq (Opt (Lit ''s'')) (Seq (Lit ''://github.com/'') r)))
           (scheme @ ''://github.com/'' @ t, caps) = run r (t, caps)"
  using assms by auto

lemma run_segment_slash:
  assumes "segment x"
  shows "run (Seq (Group (Plus (NotChr CHR ''/''))) (Seq (Lit (CHR ''/'' # l)) r))
           (x @ (CHR ''/'' # l) @ t, caps) = run r (t, caps @ [x])"
  using assms run_segment [of x "CHR ''/''" l r t caps] by (simp add: segment_def)

lemma run_pr_regex:
  assumes "scheme = ''http'' \<or> scheme = ''https''" and "segment ow" and "segment rp"
  shows "run pr_regex (scheme @ ''://github.com/'' @ ow @ ''/'' @ rp @ ''/pull/'' @ t, [])
         = map (\<lambda>k. (drop k t, [ow, rp, take k t]))
             (rev [1..<Suc (length (takeWhile (cls_match Digit) t))])"
proof -
  have "run pr_regex (scheme @ ''://github.com/'' @ ow @ ''/'' @ rp @ ''/pull/'' @ t, [])
        = run (Seq (Group (Plus (NotChr CHR ''/''))) (Seq (Lit ''/'')
            (Seq (Group (Plus (NotChr CHR ''/''))) (Seq (Lit ''/pull/'') (Group (Plus Digit))))))
            (ow @ ''/'' @ (rp @ ''/pull/'' @ t), [])"
    unfolding pr_regex_def using run_scheme [OF assms(1)] by simp
  also have "\<dots> = run (Seq (Group (Plus (NotChr CHR ''/''))) (Seq (Lit ''/pull/'') (Group (Plus Digit))))
                      (rp @ ''/pull/'' @ t, [] @ [ow])"
    using assms(2) by (rule run_segment_slash)
  also have "\<dots> = run (Group (Plus Digit)) (t, ([] @ [ow]) @ [rp])"
    using assms(3) by (rule run_segment_slash)
  also have "\<dots> = map (\<lambda>k. (drop k t, [ow, rp, take k t]))
                      (rev [1..<Suc (length (takeWhile (cls_match Digit) t))])"
    unfolding run_Group_Plus by simp
  finally show ?thesis .
qed


lemma run_Seq_Lit_elim:
  assumes "(s', c') \<in> set (run (Seq (Lit l) r) (s, c))"
  shows "\<exists>t. s = l @ t \<and> (s', c') \<in> set (run r (t, c))"
proof -
  from assms have "\<exists>st \<in> set (run (Lit l) (s, c)). (s', c') \<in> set (run r st)"
    by (rule run_Seq_elim)
  then obtain t c1 where st: "(t, c1) \<in> set (run (Lit l) (s, c))"
    and r: "(s', c') \<in> set (run r (t, c1))"
    by (metis surj_pair)
  from st have "s = l @ t \<and> c1 = c" by (rule run_Lit_elim)
  with r show ?thesis by blast
qed


lemma run_Seq_Opt_Lit_elim:
  assumes "(s', c') \<in> set (run (Seq (Opt (Lit l)) r) (s, c))"
  shows "\<exists>t. (s = l @ t \<or> s = t) \<and> (s', c') \<in> set (run r (t, c))"
proof -
  from assms have "\<exists>st \<in> set (run (Opt (Lit l)) (s, c)). (s', c') \<in> set (run r st)"
    by (rule run_Seq_elim)
  then obtain t c1 where st: "(t, c1) \<in> set (run (Opt (Lit l)) (s, c))"
    and r: "(s', c') \<in> set (run r (t, c1))"
    by (metis surj_pair)
  from st have "c1 = c \<and> (s = l @ t \<or> s = t)" by (rule run_Opt_Lit_elim)
  with r show ?thesis by blast
qed

lemma run_Seq_Group_Plus_elim:
  assumes "(s', c') \<in> set (run (Seq (Group (Plus cl)) r) (s, c))"
  shows "\<exists>x t. x \<noteq> [] \<and> (\<forall>ch \<in> set x. cls_match cl ch) \<and> s = x @ t
               \<and> (s', c') \<in> set (run r (t, c @ [x]))"
proof -
  from assms have "\<exists>st \<in> set (run (Group (Plus cl)) (s, c)). (s', c') \<in> set (run r st)"
    by (rule run_Seq_elim)
  then obtain t c1 where st: "(t, c1) \<in> set (run (Group (Plus cl)) (s, c))"
    and r: "(s', c') \<in> set (run r (t, c1))"
    by (metis surj_pair)
  from st have "\<exists>x. x \<noteq> [] \<and> (\<forall>ch \<in> set x. cls_match cl ch) \<and> s = x @ t \<and> c1 = c @ [x]"
    by (rule run_Group_Plus_elim)
  with r show ?thesis by blast
qed

lemma run_pr_regex_elim:
  assumes "(s', caps') \<in> set (run pr_regex (s, []))"
  shows "\<exists>scheme ow rp ds. (scheme = ''http'' \<or> scheme = ''https'') \<and> segment ow \<and> segment rp
           \<and> digits ds \<and> s = pr_url scheme ''github.com'' ow rp ds @ s' \<and> caps' = [ow, rp, ds]"
proof -
  from assms have 0: "(s', caps') \<in> set (run (Seq (Lit ''http'') (Seq (Opt (Lit ''s''))
       (Seq (Lit ''://github.com/'')
       (Seq (Group (Plus (NotChr CHR ''/''))) (Seq (Lit ''/'')
         (Seq (Group (Plus (NotChr CHR ''/''))) (Seq (Lit ''/pull/'')
           (Group (Plus Digit)))))))) ) (s, []))"
    unfolding pr_regex_def .
  from run_Seq_Lit_elim [OF 0] obtain t1 where t1: "s = ''http'' @ t1"
    and 1: "(s', caps') \<in> set (run (Seq (Opt (Lit ''s'')) (Seq (Lit ''://github.com/'')
       (Seq (Group (Plus (NotChr CHR ''/''))) (Seq (Lit ''/'')
         (Seq (Group (Plus (NotChr CHR ''/''))) (Seq (Lit ''/pull/'')
           (Group (Plus Digit))))))) ) (t1, []))"
    by blast
  from run_Seq_Opt_Lit_elim [OF 1] obtain t2 where t2: "t1 = ''s'' @ t2 \<or> t1 = t2"
    and 2: "(s', caps') \<in> set (run (Seq (Lit ''://github.com/'')
       (Seq (Group (Plus (NotChr CHR ''/''))) (Seq (Lit ''/'')
         (Seq (Group (Plus (NotChr CHR ''/''))) (Seq (Lit ''/pull/'')
           (Group (Plus Digit)))))) ) (t2, []))"
    by blast
  from run_Seq_Lit_elim [OF 2] obtain t3 where t3: "t2 = ''://github.com/'' @ t3"
    and 3: "(s', caps') \<in> set (run (Seq (Group (Plus (NotChr CHR ''/''))) (Seq (Lit ''/'')
         (Seq (Group (Plus (NotChr CHR ''/''))) (Seq (Lit ''/pull/'')
           (Group (Plus Digit))))) ) (t3, []))"
    by blast
  from run_Seq_Group_Plus_elim [OF 3] obtain ow t4 where
    ow: "ow \<noteq> []" "\<forall>ch \<in> set ow. cls_match (NotChr CHR ''/'') ch"
    and t4: "t3 = ow @ t4"
    and 4: "(s', caps') \<in> set (run (Seq (Lit ''/'')
         (Seq (Group (Plus (NotChr CHR ''/''))) (Seq (Lit ''/pull/'')
           (Group (Plus Digit)))) ) (t4, [] @ [ow]))"
    by blast
  from run_Seq_Lit_elim [OF 4] obtain t5 where t5: "t4 = ''/'' @ t5"
    and 5: "(s', caps') \<in> set (run (Seq (Group (Plus (NotChr CHR ''/''))) (Seq (Lit ''/pull/'')
           (Group (Plus Digit))) ) (t5, [] @ [ow]))"
    by blast
  from run_Seq_Group_Plus_elim [OF 5] obtain rp t6 where
    rp: "rp \<noteq> []" "\<forall>ch \<in> set rp. cls_match (NotChr CHR ''/'') ch"
    and t6: "t5 = rp @ t6"
    and 6: "(s', caps') \<in> set (run (Seq (Lit ''/pull/'') (Group (Plus Digit))) (t6, ([] @ [ow]) @ [rp]))"
    by blast
  from run_Seq_Lit_elim [OF 6] obtain t7 where t7: "t6 = ''/pull/'' @ t7"
    and 7: "(s', caps') \<in> set (run (Group (Plus Digit)) (t7, ([] @ [ow]) @ [rp]))"
    by blast
  from run_Group_Plus_elim [OF 7] obtain ds where
    ds: "ds \<noteq> []" "\<forall>ch \<in> set ds. cls_match Digit ch"
    and t8: "t7 = ds @ s'" and caps: "caps' = (([] @ [ow]) @ [rp]) @ [ds]"
    by blast
  have seg: "segment ow" "segment rp" using ow rp by (auto simp: segment_def)
  have dig: "digits ds" using ds by (auto simp: digits_def)
  have c: "caps' = [ow, rp, ds]" using caps by simp
  from t2 show ?thesis
  proof
    assume "t1 = ''s'' @ t2"
    then have "s = pr_url ''https'' ''github.com'' ow rp ds @ s'"
      using t1 t3 t4 t5 t6 t7 t8 by (simp add: pr_url_def)
    with seg dig c show ?thesis by blast
  next
    assume "t1 = t2"
    then have "s = pr_url ''http'' ''github.com'' ow rp ds @ s'"
      using t1 t3 t4 t5 t6 t7 t8 by (simp add: pr_url_def)
    with seg dig c show ?thesis by blast
  qed
qed

lemma takeWhile_Digit_length:
  assumes "digits ds"
  shows "1 \<le> length (takeWhile (cls_match Digit) (ds @ rest))"
proof -
  from assms obtain d ds' where "ds = d # ds'" and "cls_match Digit d"
    by (cases ds) (auto simp: digits_def)
  then show ?thesis by simp
qed

lemma occurs_at_iff: "occurs_at s i \<longleftrightarrow> run pr_regex (drop i s, []) \<noteq> []"
proof
  assume "occurs_at s i"
  then obtain scheme ow rp ds rest where
    h: "scheme = ''http'' \<or> scheme = ''https''" "segment ow" "segment rp" "digits ds"
    and d: "drop i s = pr_url scheme ''github.com'' ow rp ds @ rest"
    unfolding occurs_at_def by blast
  have "run pr_regex (drop i s, []) = map (\<lambda>k. (drop k (ds @ rest), [ow, rp, take k (ds @ rest)]))
             (rev [1..<Suc (length (takeWhile (cls_match Digit) (ds @ rest)))])"
    using run_pr_regex [OF h(1,2,3), of "ds @ rest"] d by (simp add: pr_url_def)
  then show "run pr_regex (drop i s, []) \<noteq> []"
    using takeWhile_Digit_length [OF h(4), of rest] by simp
next
  assume "run pr_regex (drop i s, []) \<noteq> []"
  then obtain s' caps' where "(s', caps') \<in> set (run pr_regex (drop i s, []))"
    by (cases "run pr_regex (drop i s, [])") auto
  from run_pr_regex_elim [OF this] show "occurs_at s i"
    unfolding occurs_at_def by blast
qed

lemma search_None_iff: "search r s = None \<longleftrightarrow> (\<forall>i \<le> length s. run r (drop i s, []) = [])"
proof (induction s)
  case Nil
  then show ?case by (auto split: list.splits)
next
  case (Cons c s)
  have "(\<forall>i \<le> length (c # s). run r (drop i (c # s), []) = [])
        \<longleftrightarrow> run r (c # s, []) = [] \<and> (\<forall>i \<le> length s. run r (drop i s, []) = [])"
  proof (intro iffI conjI allI impI)
    fix i assume a: "run r (c # s, []) = [] \<and> (\<forall>i \<le> length s. run r (drop i s, []) = [])"
      and i: "i \<le> length (c # s)"
    show "run r (drop i (c # s), []) = []"
      using a i by (cases i) auto
  next
    assume a: "\<forall>i \<le> length (c # s). run r (drop i (c # s), []) = []"
    from a [rule_format, of 0] show "run r (c # s, []) = []" by simp
  next
    fix i assume a: "\<forall>i \<le> length (c # s). run r (drop i (c # s), []) = []" and i: "i \<le> length s"
    from a [rule_format, of "Suc i"] i show "run r (drop i s, []) = []" by simp
  qed
  with Cons show ?case by (auto split: list.splits)
qed

lemma search_first:
  "i \<le> length s \<Longrightarrow> (\<forall>j < i. run r (drop j s, []) = []) \<Longrightarrow>
   run r (drop i s, []) = (rest, caps) # others \<Longrightarrow> search r s = Some caps"
proof (induction s arbitrary: i)
  case Nil
  then show ?case by simp
next
  case (Cons c s)
  show ?case
  proof (cases i)
    case 0
    with Cons.prems show ?thesis by simp
  next
    case (Suc i')
    have "0 < i" using Suc by simp
    with Cons.prems(2) have "run r (drop 0 (c # s), []) = []" by blast
    then have "run r (c # s, []) = []" by simp
    moreover have "search r s = Some caps"
    proof (rule Cons.IH [of i'])
      show "i' \<le> length s" using Cons.prems Suc by simp
      show "\<forall>j < i'. run r (drop j s, []) = []"
      proof (intro allI impI)
        fix j assume "j < i'"
        then have "Suc j < i" using Suc by simp
        with Cons.prems(2) have "run r (drop (Suc j) (c # s), []) = []" by blast
        then show "run r (drop j s, []) = []" by simp
      qed
      show "run r (drop i' s, []) = (rest, caps) # others" using Cons.prems Suc by simp
    qed
    ultimately show ?thesis by simp
  qed
qed

lemma search_Some_elim:
  "search r s = Some caps \<Longrightarrow>
   \<exists>i \<le> length s. \<exists>rest others. run r (drop i s, []) = (rest, caps) # others"
proof (induction s)
  case Nil
  then show ?case by (auto split: list.splits)
next
  case (Cons c s)
  show ?case
  proof (cases "run r (c # s, [])")
    case Nil
    with Cons.prems have "search r s = Some caps" by simp
    from Cons.IH [OF this] obtain i rest others where "i \<le> length s"
      "run r (drop i s, []) = (rest, caps) # others" by blast
    then have "Suc i \<le> length (c # s) \<and> run r (drop (Suc i) (c # s), []) = (rest, caps) # others"
      by simp
    then show ?thesis by blast
  next
    case (Cons st others)
    with Cons.prems have "run r (drop 0 (c # s), []) = (fst st, caps) # others"
      by (cases st) auto
    then show ?thesis by blast
  qed
qed

subsection \<open>What the function recognises\<close>

lemma Number_parseInt_exact:
  assumes "parseInt10 ds < 2 ^ 53"
  shows "Number_parseInt ds = Num (real (parseInt10 ds))"
proof -
  from assms have "real (parseInt10 ds) < 2 ^ 53"
    by (metis of_nat_less_iff of_nat_numeral of_nat_power)
  then have "js_round (real (parseInt10 ds)) = Num (fl (real (parseInt10 ds)))"
    by (intro js_round_small) simp
  with assms show ?thesis by (simp add: Number_parseInt_def fl_of_nat)
qed

lemma Number_parseInt_Infinity:
  assumes "2 ^ 1024 \<le> parseInt10 ds"
  shows "Number_parseInt ds = PlusInfinity"
proof -
  from assms have "(2::real) ^ 1024 \<le> real (parseInt10 ds)"
    by (metis of_nat_le_iff of_nat_numeral of_nat_power)
  moreover have "pow2 1024 = 2 ^ 1024" by (simp add: pow2_def)
  moreover have "0 < pow2 970" by simp
  ultimately have "pow2 1024 - pow2 970 \<le> real (parseInt10 ds)" by linarith
  then show ?thesis by (simp add: Number_parseInt_def js_round_def)
qed

lemma parse_of_search:
  "search pr_regex s = Some [m1, m2, m3] \<Longrightarrow>
   parsePullRequestUrl s
   = Some \<lparr>url_owner = m1, url_repo = m2, url_pullNumber = Number_parseInt m3\<rparr>"
  by (simp add: parsePullRequestUrl_def)

lemma parse_None_iff: "parsePullRequestUrl s = None \<longleftrightarrow> search pr_regex s = None"
proof
  assume "search pr_regex s = None"
  then show "parsePullRequestUrl s = None" by (simp add: parsePullRequestUrl_def)
next
  assume n: "parsePullRequestUrl s = None"
  show "search pr_regex s = None"
  proof (rule ccontr)
    assume "search pr_regex s \<noteq> None"
    then obtain caps where c: "search pr_regex s = Some caps" by auto
    from search_Some_elim [OF c] obtain i rest others where
      "run pr_regex (drop i s, []) = (rest, caps) # others" by blast
    then have "(rest, caps) \<in> set (run pr_regex (drop i s, []))" by simp
    from run_pr_regex_elim [OF this] obtain ow rp ds where "caps = [ow, rp, ds]" by blast
    with c have "parsePullRequestUrl s \<noteq> None" by (simp add: parse_of_search)
    with n show False by contradiction
  qed
qed

lemma occurs_at_bound: "occurs_at s i \<Longrightarrow> i \<le> length s"
proof (rule ccontr)
  assume o: "occurs_at s i" and "\<not> i \<le> length s"
  then have "drop i s = []" by simp
  with o show False by (auto simp: occurs_at_def pr_url_def)
qed

lemma parse_None_occurs: "parsePullRequestUrl s = None \<longleftrightarrow> \<not> (\<exists>i. occurs_at s i)"
proof -
  have "(\<forall>i \<le> length s. run pr_regex (drop i s, []) = []) \<longleftrightarrow> \<not> (\<exists>i. occurs_at s i)"
    using occurs_at_bound [of s] by (auto simp: occurs_at_iff)
  then show ?thesis by (simp add: parse_None_iff search_None_iff)
qed

lemma takeWhile_digits:
  assumes "digits ds" and "rest = [] \<or> hd rest \<notin> set ''0123456789''"
  shows "takeWhile (cls_match Digit) (ds @ rest) = ds"
proof -
  have sub: "set ds \<subseteq> set ''0123456789''"
    using assms(1) unfolding digits_def by (rule conjunct2)
  have a: "cls_match Digit x" if "x \<in> set ds" for x
    unfolding cls_match.simps using sub that by (rule subsetD)
  have b: "takeWhile (cls_match Digit) rest = []"
  proof (cases rest)
    case Nil
    then show ?thesis by (simp only: takeWhile.simps)
  next
    case (Cons c r)
    with assms(2) have "\<not> cls_match Digit c"
      unfolding cls_match.simps by (simp only: list.sel list.distinct simp_thms)
    with Cons show ?thesis by (simp only: takeWhile.simps if_False)
  qed
  have "takeWhile (cls_match Digit) (ds @ rest) = ds @ takeWhile (cls_match Digit) rest"
    using a by (rule takeWhile_append2)
  with b show ?thesis by (simp only: append_Nil2)
qed

lemma parse_first_occurrence:
  assumes sch: "scheme = ''http'' \<or> scheme = ''https''" and ow: "segment ow" and rp: "segment rp"
    and ds: "digits ds" and s: "s = pre @ pr_url scheme ''github.com'' ow rp ds @ rest"
    and first: "\<forall>i < length pre. \<not> occurs_at s i"
    and mx: "rest = [] \<or> hd rest \<notin> set ''0123456789''"
  shows "parsePullRequestUrl s
         = Some \<lparr>url_owner = ow, url_repo = rp, url_pullNumber = Number_parseInt ds\<rparr>"
proof -
  let ?n = "length ds"
  have n: "1 \<le> ?n" using ds by (cases ds) (auto simp: digits_def)
  have d: "drop (length pre) s = scheme @ ''://github.com/'' @ ow @ ''/'' @ rp @ ''/pull/'' @ (ds @ rest)"
    using s by (simp add: pr_url_def)
  have "run pr_regex (drop (length pre) s, [])
        = map (\<lambda>k. (drop k (ds @ rest), [ow, rp, take k (ds @ rest)])) (rev [1..<Suc ?n])"
    unfolding d using run_pr_regex [OF sch ow rp, of "ds @ rest"] takeWhile_digits [OF ds mx]
    by simp
  also have "rev [1..<Suc ?n] = ?n # rev [1..<?n]" using n by simp
  finally have r: "run pr_regex (drop (length pre) s, [])
        = (rest, [ow, rp, ds]) # map (\<lambda>k. (drop k (ds @ rest), [ow, rp, take k (ds @ rest)])) (rev [1..<?n])"
    by simp
  have "search pr_regex s = Some [ow, rp, ds]"
  proof (rule search_first [OF _ _ r])
    show "length pre \<le> length s" using s by simp
    show "\<forall>j < length pre. run pr_regex (drop j s, []) = []"
      using first by (simp add: occurs_at_iff)
  qed
  then show ?thesis by (rule parse_of_search)
qed

lemma parse_occurrence_not_None:
  assumes "scheme = ''http'' \<or> scheme = ''https''" and "segment ow" and "segment rp"
    and "digits ds" and s: "s = pre @ pr_url scheme ''github.com'' ow rp ds @ rest"
  shows "parsePullRequestUrl s \<noteq> None"
proof -
  have "drop (length pre) s = pr_url scheme ''github.com'' ow rp ds @ rest"
    using s by simp
  with assms(1-4) have "occurs_at s (length pre)"
    unfolding occurs_at_def by blast
  then show ?thesis by (auto simp: parse_None_occurs)
qed

lemma parseInt10_42: "parseInt10 ''42'' = 42"
  by (simp add: parseInt10_def digit_val_def)

lemma Number_parseInt_42: "Number_parseInt ''42'' = Num 42"
  using Number_parseInt_exact [of "''42''"] by (simp add: parseInt10_42)

lemma Number_parseInt_1: "Number_parseInt ''1'' = Num 1"
  using Number_parseInt_exact [of "''1''"] by (simp add: parseInt10_def digit_val_def)

lemma Number_parseInt_2: "Number_parseInt ''2'' = Num 2"
  using Number_parseInt_exact [of "''2''"] by (simp add: parseInt10_def digit_val_def)

text \<open>Above \<open>2^53\<close> the number is rounded: \<open>2^53 + 1\<close> parses to \<open>2^53\<close>.\<close>

lemma Number_parseInt_rounds:
  "Number_parseInt ''9007199254740993'' = Num 9007199254740992"
proof -
  have p: "parseInt10 ''9007199254740993'' = 9007199254740993"
    by (simp add: parseInt10_def digit_val_def)
  have "fl 9007199254740993 = 9007199254740992"
    by (rule fl_val [where E = 53 and m = 4503599627370496])
       (simp_all add: pow2_def round_even_def Let_def)
  moreover have "js_round 9007199254740993 = Num (fl 9007199254740993)"
    by (rule js_round_Num) (simp add: pow2_def)
  ultimately show ?thesis by (simp add: Number_parseInt_def p)
qed

text \<open>
  Claim C9, as amended: the host is github.com and the scheme http or https. A URL
  \<open>http(s)://github.com/<owner>/<repo>/pull/<number>\<close> parses to its owner, its
  repository and its number as \<^verbatim>\<open>Number.parseInt\<close> reads it, which is the number itself
  below \<open>2^53\<close>; the result is absent exactly when no such URL occurs anywhere in the
  input (the function is total: it returns for every string); the two examples of the
  specification evaluate as it says, and the number \<open>2^53 + 1\<close> is read as \<open>2^53\<close>.
\<close>

theorem parsePullRequestUrl_recognises:
  "(segment ow \<and> segment rp \<and> digits ds \<and> (scheme = ''http'' \<or> scheme = ''https'')
      \<longrightarrow> parsePullRequestUrl (pr_url scheme ''github.com'' ow rp ds)
           = Some \<lparr>url_owner = ow, url_repo = rp, url_pullNumber = Number_parseInt ds\<rparr>
          \<and> (parseInt10 ds < 2 ^ 53 \<longrightarrow> Number_parseInt ds = Num (real (parseInt10 ds))))
   \<and> (parsePullRequestUrl s = None \<longleftrightarrow> \<not> (\<exists>i. occurs_at s i))
   \<and> parsePullRequestUrl ''https://github.com/acme/widgets/pull/42''
       = Some \<lparr>url_owner = ''acme'', url_repo = ''widgets'', url_pullNumber = Num 42\<rparr>
   \<and> parsePullRequestUrl ''https://github.com/acme/widgets/issues/42'' = None
   \<and> parsePullRequestUrl ''https://github.com/acme/widgets/pull/9007199254740993''
       = Some \<lparr>url_owner = ''acme'', url_repo = ''widgets'',
               url_pullNumber = Num 9007199254740992\<rparr>"
proof (intro conjI impI)
  assume a: "segment ow \<and> segment rp \<and> digits ds \<and> (scheme = ''http'' \<or> scheme = ''https'')"
  show "parsePullRequestUrl (pr_url scheme ''github.com'' ow rp ds)
        = Some \<lparr>url_owner = ow, url_repo = rp, url_pullNumber = Number_parseInt ds\<rparr>"
    using a parse_first_occurrence [of scheme ow rp ds "pr_url scheme ''github.com'' ow rp ds" "[]" "[]"]
    by simp
next
  assume "parseInt10 ds < 2 ^ 53"
  then show "Number_parseInt ds = Num (real (parseInt10 ds))"
    by (rule Number_parseInt_exact)
next
  show "parsePullRequestUrl s = None \<longleftrightarrow> \<not> (\<exists>i. occurs_at s i)"
    by (rule parse_None_occurs)
next
  show "parsePullRequestUrl ''https://github.com/acme/widgets/pull/42''
       = Some \<lparr>url_owner = ''acme'', url_repo = ''widgets'', url_pullNumber = Num 42\<rparr>"
    by (simp add: parsePullRequestUrl_def pr_regex_def Number_parseInt_42)
next
  show "parsePullRequestUrl ''https://github.com/acme/widgets/issues/42'' = None"
    by (simp add: parsePullRequestUrl_def pr_regex_def)
next
  show "parsePullRequestUrl ''https://github.com/acme/widgets/pull/9007199254740993''
        = Some \<lparr>url_owner = ''acme'', url_repo = ''widgets'',
                url_pullNumber = Num 9007199254740992\<rparr>"
    by (simp add: parsePullRequestUrl_def pr_regex_def Number_parseInt_rounds)
qed

theorem parsePullRequestUrl_recognises_witness:
  "segment ''acme'' \<and> segment ''widgets'' \<and> digits ''42''
   \<and> parsePullRequestUrl (pr_url ''http'' ''github.com'' ''acme'' ''widgets'' ''42'')
       = Some \<lparr>url_owner = ''acme'', url_repo = ''widgets'', url_pullNumber = Num 42\<rparr>
   \<and> parsePullRequestUrl ''https://github.com/acme/widgets/issues/42'' = None"
  using parsePullRequestUrl_recognises [of "''acme''" "''widgets''" "''42''" "''http''" "[]"]
  by (simp add: segment_def digits_def parseInt10_42)

text \<open>
  Claim C9 as stated fails for a host other than github.com: a URL of the shape
  \<open>https://<host>/<owner>/<repo>/pull/<number>\<close> with the host gitlab.com is not
  recognised.
\<close>

theorem parsePullRequestUrl_other_host:
  "pr_url ''https'' ''gitlab.com'' ''acme'' ''widgets'' ''42'' = ''https://gitlab.com/acme/widgets/pull/42''
   \<and> parsePullRequestUrl (pr_url ''https'' ''gitlab.com'' ''acme'' ''widgets'' ''42'') = None"
  by (simp add: parsePullRequestUrl_def pr_regex_def pr_url_def)

text \<open>
  Claim C10, as amended: the occurrences are those with scheme http or https. Whenever
  such a URL occurs anywhere inside the input, the result is not absent; when it is the
  first occurrence (none starts at an earlier position) and its digits are followed by
  no further digit, the result is its owner, its repository and its number as
  \<^verbatim>\<open>Number.parseInt\<close> reads it, which is the number itself below \<open>2^53\<close>.
\<close>

theorem parsePullRequestUrl_unanchored:
  assumes "scheme = ''http'' \<or> scheme = ''https''" and "segment ow" and "segment rp"
    and "digits ds" and "s = pre @ pr_url scheme ''github.com'' ow rp ds @ rest"
  shows "parsePullRequestUrl s \<noteq> None
       \<and> ((\<forall>i < length pre. \<not> occurs_at s i) \<and> (rest = [] \<or> hd rest \<notin> set ''0123456789'')
            \<longrightarrow> parsePullRequestUrl s
                 = Some \<lparr>url_owner = ow, url_repo = rp, url_pullNumber = Number_parseInt ds\<rparr>
                \<and> (parseInt10 ds < 2 ^ 53
                     \<longrightarrow> Number_parseInt ds = Num (real (parseInt10 ds))))"
  using parse_occurrence_not_None [OF assms] parse_first_occurrence [OF assms]
    Number_parseInt_exact [of ds]
  by blast

theorem parsePullRequestUrl_unanchored_witness:
  "parsePullRequestUrl ''see https://github.com/acme/widgets/pull/42/files''
     = Some \<lparr>url_owner = ''acme'', url_repo = ''widgets'', url_pullNumber = Num 42\<rparr>"
proof -
  let ?s = "''see https://github.com/acme/widgets/pull/42/files''"
  have p0: "\<not> occurs_at ?s 0" by (simp add: occurs_at_iff pr_regex_def)
  have p1: "\<not> occurs_at ?s 1" by (simp add: occurs_at_iff pr_regex_def)
  have p2: "\<not> occurs_at ?s 2" by (simp add: occurs_at_iff pr_regex_def)
  have p3: "\<not> occurs_at ?s 3" by (simp add: occurs_at_iff pr_regex_def)
  have first: "\<forall>i < length ''see ''. \<not> occurs_at ?s i"
  proof (intro allI impI)
    fix i :: nat assume "i < length ''see ''"
    then have "i = 0 \<or> i = 1 \<or> i = 2 \<or> i = 3" by auto
    with p0 p1 p2 p3 show "\<not> occurs_at ?s i" by blast
  qed
  have sch: "''https'' = ''http'' \<or> ''https'' = ''https''" by simp
  have ow: "segment ''acme''" and rp: "segment ''widgets''" by (simp_all add: segment_def)
  have ds: "digits ''42''" by (simp add: digits_def)
  have eq: "?s = ''see '' @ pr_url ''https'' ''github.com'' ''acme'' ''widgets'' ''42'' @ ''/files''"
    by (simp add: pr_url_def)
  have mx: "''/files'' = [] \<or> hd ''/files'' \<notin> set ''0123456789''" by simp
  have b: "parseInt10 ''42'' < 2 ^ 53" by (simp add: parseInt10_42)
  from parsePullRequestUrl_unanchored [OF sch ow rp ds eq] first mx b
  have "parsePullRequestUrl ?s
        = Some \<lparr>url_owner = ''acme'', url_repo = ''widgets'',
                url_pullNumber = Num (real (parseInt10 ''42''))\<rparr>"
    by simp
  then show ?thesis by (simp only: parseInt10_42 of_nat_numeral)
qed

text \<open>
  Claim C10 as stated fails when an http URL comes first: the input contains
  \<open>https://github.com/c/d/pull/2\<close>, and this is its first occurrence with the scheme
  https, but the function returns a, b and 1 of the http URL before it.
\<close>

theorem parsePullRequestUrl_http_first:
  "parsePullRequestUrl (''http://github.com/a/b/pull/1 '' @ pr_url ''https'' ''github.com'' ''c'' ''d'' ''2'')
     = Some \<lparr>url_owner = ''a'', url_repo = ''b'', url_pullNumber = Num 1\<rparr>
   \<and> parsePullRequestUrl (''http://github.com/a/b/pull/1 '' @ pr_url ''https'' ''github.com'' ''c'' ''d'' ''2'')
     \<noteq> Some \<lparr>url_owner = ''c'', url_repo = ''d'', url_pullNumber = Num 2\<rparr>"
  by (simp add: parsePullRequestUrl_def pr_regex_def pr_url_def Number_parseInt_1)

section \<open>Properties of the two aggregations\<close>

subsection \<open>Cache keys and the read-through blocks\<close>

lemma digit_val_digit_char: "d < 10 \<Longrightarrow> digit_val (digit_char d) = d"
  by (simp add: digit_val_def digit_char_def)

lemma parseInt10_snoc: "parseInt10 (ds @ [c]) = 10 * parseInt10 ds + digit_val c"
  by (simp add: parseInt10_def)

lemma parseInt10_show_nat: "parseInt10 (show_nat n) = n"
proof (induction n rule: show_nat.induct)
  case (1 n)
  show ?case
  proof (cases "n < 10")
    case True
    then show ?thesis
      by (subst show_nat.simps) (simp add: parseInt10_def digit_val_digit_char)
  next
    case False
    with 1 have "parseInt10 (show_nat (n div 10)) = n div 10" by simp
    with False show ?thesis
      by (subst show_nat.simps) (simp add: parseInt10_snoc digit_val_digit_char)
  qed
qed

lemma show_nat_inj: "show_nat n = show_nat m \<Longrightarrow> n = m"
  by (metis parseInt10_show_nat)

lemma getReviewsCacheKey_inj [simp]:
  "getReviewsCacheKey owner repo n = getReviewsCacheKey owner repo m \<longleftrightarrow> n = m"
  by (auto simp: getReviewsCacheKey_def dest: show_nat_inj)

lemma getFilesCacheKey_inj [simp]:
  "getFilesCacheKey owner repo n = getFilesCacheKey owner repo m \<longleftrightarrow> n = m"
  by (auto simp: getFilesCacheKey_def dest: show_nat_inj)


lemma cached_listReviews_ok:
  assumes coh: "coherent E owner repo w" and up: "pulls_listReviews E owner repo n = Inr rs"
  shows "\<exists>w'. cached_listReviews E owner repo n w = (Inr rs, w') \<and> coherent E owner repo w'"
proof (cases "cache (reviewsCache w) (getReviewsCacheKey owner repo n)")
  case None
  then have "cached_listReviews E owner repo n w
             = (Inr rs, reviewsCache_set E (getReviewsCacheKey owner repo n) rs w)"
    using up by (simp add: cached_listReviews_def reviewsCache_get_def Let_def)
  moreover have "coherent E owner repo (reviewsCache_set E (getReviewsCacheKey owner repo n) rs w)"
    using coh up by (simp add: coherent_def reviewsCache_set_def set_entry_def)
  ultimately show ?thesis by blast
next
  case (Some e)
  with coh up have d: "data e = rs" by (auto simp: coherent_def)
  show ?thesis
  proof (cases "Date_now E (clock_reads w) - timestamp e > ttl (reviewsCache w)")
    case False
    with Some d have "cached_listReviews E owner repo n w
             = (Inr rs, w\<lparr>clock_reads := Suc (clock_reads w)\<rparr>)"
      by (simp add: cached_listReviews_def reviewsCache_get_def get_def Let_def)
    moreover have "coherent E owner repo (w\<lparr>clock_reads := Suc (clock_reads w)\<rparr>)"
      using coh by (simp add: coherent_def)
    ultimately show ?thesis by blast
  next
    case True
    let ?w1 = "w\<lparr>reviewsCache := (reviewsCache w)\<lparr>cache := (cache (reviewsCache w))(getReviewsCacheKey owner repo n := None)\<rparr>,
                  clock_reads := Suc (clock_reads w)\<rparr>"
    from True Some have "cached_listReviews E owner repo n w
             = (Inr rs, reviewsCache_set E (getReviewsCacheKey owner repo n) rs ?w1)"
      using up by (simp add: cached_listReviews_def reviewsCache_get_def get_def Let_def)
    moreover have "coherent E owner repo (reviewsCache_set E (getReviewsCacheKey owner repo n) rs ?w1)"
      using coh up by (simp add: coherent_def reviewsCache_set_def set_entry_def)
    ultimately show ?thesis by blast
  qed
qed

lemma cached_listFiles_ok:
  assumes coh: "coherent E owner repo w" and up: "pulls_listFiles E owner repo n = Inr fs"
  shows "\<exists>w'. cached_listFiles E owner repo n w = (Inr fs, w') \<and> coherent E owner repo w'"
proof (cases "cache (filesCache w) (getFilesCacheKey owner repo n)")
  case None
  then have "cached_listFiles E owner repo n w
             = (Inr fs, filesCache_set E (getFilesCacheKey owner repo n) fs w)"
    using up by (simp add: cached_listFiles_def filesCache_get_def Let_def)
  moreover have "coherent E owner repo (filesCache_set E (getFilesCacheKey owner repo n) fs w)"
    using coh up by (simp add: coherent_def filesCache_set_def set_entry_def)
  ultimately show ?thesis by blast
next
  case (Some e)
  with coh up have d: "data e = fs" by (auto simp: coherent_def)
  show ?thesis
  proof (cases "Date_now E (clock_reads w) - timestamp e > ttl (filesCache w)")
    case False
    with Some d have "cached_listFiles E owner repo n w
             = (Inr fs, w\<lparr>clock_reads := Suc (clock_reads w)\<rparr>)"
      by (simp add: cached_listFiles_def filesCache_get_def get_def Let_def)
    moreover have "coherent E owner repo (w\<lparr>clock_reads := Suc (clock_reads w)\<rparr>)"
      using coh by (simp add: coherent_def)
    ultimately show ?thesis by blast
  next
    case True
    let ?w1 = "w\<lparr>filesCache := (filesCache w)\<lparr>cache := (cache (filesCache w))(getFilesCacheKey owner repo n := None)\<rparr>,
                  clock_reads := Suc (clock_reads w)\<rparr>"
    from True Some have "cached_listFiles E owner repo n w
             = (Inr fs, filesCache_set E (getFilesCacheKey owner repo n) fs ?w1)"
      using up by (simp add: cached_listFiles_def filesCache_get_def get_def Let_def)
    moreover have "coherent E owner repo (filesCache_set E (getFilesCacheKey owner repo n) fs ?w1)"
      using coh up by (simp add: coherent_def filesCache_set_def set_entry_def)
    ultimately show ?thesis by blast
  qed
qed

lemma cached_pulls_list_ok:
  assumes coh: "coherent E owner repo w"
    and up: "pulls_list E owner repo State_all_updated_desc_100 = Inr prs"
  shows "\<exists>w'. cached_pulls_list E owner repo w = (Inr prs, w') \<and> coherent E owner repo w'"
proof (cases "cache (pullRequestsCache w) (getPRCacheKey owner repo)")
  case None
  then have "cached_pulls_list E owner repo w
             = (Inr prs, pullRequestsCache_set E (getPRCacheKey owner repo) prs w)"
    using up by (simp add: cached_pulls_list_def pullRequestsCache_get_def Let_def)
  moreover have "coherent E owner repo (pullRequestsCache_set E (getPRCacheKey owner repo) prs w)"
    using coh up by (simp add: coherent_def pullRequestsCache_set_def set_entry_def)
  ultimately show ?thesis by blast
next
  case (Some e)
  with coh up have d: "data e = prs" by (auto simp: coherent_def)
  show ?thesis
  proof (cases "Date_now E (clock_reads w) - timestamp e > ttl (pullRequestsCache w)")
    case False
    with Some d have "cached_pulls_list E owner repo w
             = (Inr prs, w\<lparr>clock_reads := Suc (clock_reads w)\<rparr>)"
      by (simp add: cached_pulls_list_def pullRequestsCache_get_def get_def Let_def)
    moreover have "coherent E owner repo (w\<lparr>clock_reads := Suc (clock_reads w)\<rparr>)"
      using coh by (simp add: coherent_def)
    ultimately show ?thesis by blast
  next
    case True
    let ?w1 = "w\<lparr>pullRequestsCache := (pullRequestsCache w)\<lparr>cache := (cache (pullRequestsCache w))(getPRCacheKey owner repo := None)\<rparr>,
                  clock_reads := Suc (clock_reads w)\<rparr>"
    from True Some have "cached_pulls_list E owner repo w
             = (Inr prs, pullRequestsCache_set E (getPRCacheKey owner repo) prs ?w1)"
      using up by (simp add: cached_pulls_list_def pullRequestsCache_get_def get_def Let_def)
    moreover have "coherent E owner repo (pullRequestsCache_set E (getPRCacheKey owner repo) prs ?w1)"
      using coh up by (simp add: coherent_def pullRequestsCache_set_def set_entry_def)
    ultimately show ?thesis by blast
  qed
qed

subsection \<open>calculateRelatedFileExperience\<close>

lemma reviews_of_Inr: "pulls_listReviews E owner repo n = Inr rs \<Longrightarrow> reviews_of E owner repo n = rs"
  by (simp add: reviews_of_def)

lemma files_of_Inr: "pulls_listFiles E owner repo n = Inr fs \<Longrightarrow> files_of E owner repo n = fs"
  by (simp add: files_of_def)

lemma common_file_iff:
  "common_file E owner repo prFiles p \<longleftrightarrow>
   list_ex (\<lambda>file. filename file \<in> set (map filename prFiles)) (files_of E owner repo (pr_number p))"
  by (auto simp: common_file_def list_ex_iff)

lemma reviewed_by_iff:
  "reviewed_by E owner repo reviewer p \<longleftrightarrow>
   list_ex (\<lambda>review. rv_user_login review = Some reviewer) (reviews_of E owner repo (pr_number p))"
  by (simp add: reviewed_by_def list_ex_iff)

lemma relatedChanges_loop_ok:
  assumes "coherent E owner repo w"
    and "\<forall>p \<in> set prs. \<exists>rs. pulls_listReviews E owner repo (pr_number p) = Inr rs"
    and "\<forall>p \<in> set prs. reviewed_by E owner repo reviewer p \<longrightarrow>
           (\<exists>fs. pulls_listFiles E owner repo (pr_number p) = Inr fs)"
  shows "\<exists>w'. relatedChanges_loop E owner repo reviewer (set (map filename prFiles)) prs k w
              = (Inr (k + length (filter (\<lambda>p. reviewed_by E owner repo reviewer p
                                          \<and> common_file E owner repo prFiles p) prs)), w')
            \<and> coherent E owner repo w'"
  using assms
proof (induction prs arbitrary: k w)
  case Nil
  then show ?case by simp
next
  case (Cons p prs)
  from Cons.prems(2) obtain rs where rs: "pulls_listReviews E owner repo (pr_number p) = Inr rs"
    by auto
  from cached_listReviews_ok [OF Cons.prems(1) rs] obtain w1 where
    c1: "cached_listReviews E owner repo (pr_number p) w = (Inr rs, w1)"
    and coh1: "coherent E owner repo w1" by blast
  have rest2: "\<forall>p \<in> set prs. \<exists>rs. pulls_listReviews E owner repo (pr_number p) = Inr rs"
    using Cons.prems(2) by simp
  have rest3: "\<forall>p \<in> set prs. reviewed_by E owner repo reviewer p \<longrightarrow>
           (\<exists>fs. pulls_listFiles E owner repo (pr_number p) = Inr fs)"
    using Cons.prems(3) by simp
  show ?case
  proof (cases "reviewed_by E owner repo reviewer p")
    case False
    then have nr: "\<not> list_ex (\<lambda>review. rv_user_login review = Some reviewer) rs"
      using reviews_of_Inr [OF rs] by (simp add: reviewed_by_iff)
    from Cons.IH [OF coh1 rest2 rest3, of k] obtain w' where
      "relatedChanges_loop E owner repo reviewer (set (map filename prFiles)) prs k w1
         = (Inr (k + length (filter (\<lambda>p. reviewed_by E owner repo reviewer p
                                          \<and> common_file E owner repo prFiles p) prs)), w')"
      and "coherent E owner repo w'" by blast
    with c1 nr False show ?thesis by simp
  next
    case True
    then have r: "list_ex (\<lambda>review. rv_user_login review = Some reviewer) rs"
      using reviews_of_Inr [OF rs] by (simp add: reviewed_by_iff)
    from True Cons.prems(3) obtain fs where fs: "pulls_listFiles E owner repo (pr_number p) = Inr fs"
      by auto
    from cached_listFiles_ok [OF coh1 fs] obtain w2 where
      c2: "cached_listFiles E owner repo (pr_number p) w1 = (Inr fs, w2)"
      and coh2: "coherent E owner repo w2" by blast
    have cf: "common_file E owner repo prFiles p
              \<longleftrightarrow> list_ex (\<lambda>file. filename file \<in> set (map filename prFiles)) fs"
      using files_of_Inr [OF fs] by (simp add: common_file_iff)
    let ?k = "if list_ex (\<lambda>file. filename file \<in> set (map filename prFiles)) fs then k + 1 else k"
    from Cons.IH [OF coh2 rest2 rest3, of ?k] obtain w' where
      "relatedChanges_loop E owner repo reviewer (set (map filename prFiles)) prs ?k w2
         = (Inr (?k + length (filter (\<lambda>p. reviewed_by E owner repo reviewer p
                                          \<and> common_file E owner repo prFiles p) prs)), w')"
      and "coherent E owner repo w'" by blast
    with c1 c2 r True cf show ?thesis by simp
  qed
qed

text \<open>
  Claim C6. With the token set, caches that agree with the endpoints, and the endpoints
  answering for the target pull request, for the list of the repository and for each
  listed pull request, \<^verbatim>\<open>calculateRelatedFileExperience\<close> returns the number of entries
  of the fetched list (each entry counted once, the target itself not excluded: the
  filter has no condition on the number) that have a review written by the reviewer and
  a changed file name in common with the target's files; a pull request without a common
  file name adds nothing, so the result is 0 when no listed pull request has one. The
  caches agree with the endpoints again after the call.
\<close>

theorem calculateRelatedFileExperience_count:
  assumes "getOctokit E = Inr ()"
    and "coherent E owner repo w"
    and "pulls_listFiles E owner repo prNumber = Inr prFiles"
    and "pulls_list E owner repo State_all_updated_desc_100 = Inr prs"
    and "\<forall>p \<in> set prs. \<exists>rs. pulls_listReviews E owner repo (pr_number p) = Inr rs"
    and "\<forall>p \<in> set prs. reviewed_by E owner repo reviewer p \<longrightarrow>
           (\<exists>fs. pulls_listFiles E owner repo (pr_number p) = Inr fs)"
  shows "fst (calculateRelatedFileExperience E owner repo prNumber reviewer w)
           = Inr (length (filter (\<lambda>p. reviewed_by E owner repo reviewer p
                                      \<and> common_file E owner repo prFiles p) prs))
       \<and> ((\<forall>p \<in> set prs. \<not> common_file E owner repo prFiles p)
            \<longrightarrow> fst (calculateRelatedFileExperience E owner repo prNumber reviewer w) = Inr 0)
       \<and> coherent E owner repo (snd (calculateRelatedFileExperience E owner repo prNumber reviewer w))"
proof -
  from cached_listFiles_ok [OF assms(2,3)] obtain w1 where
    c1: "cached_listFiles E owner repo prNumber w = (Inr prFiles, w1)"
    and coh1: "coherent E owner repo w1" by blast
  from cached_pulls_list_ok [OF coh1 assms(4)] obtain w2 where
    c2: "cached_pulls_list E owner repo w1 = (Inr prs, w2)"
    and coh2: "coherent E owner repo w2" by blast
  from relatedChanges_loop_ok [OF coh2 assms(5,6), of prFiles 0] obtain w' where
    l: "relatedChanges_loop E owner repo reviewer (set (map filename prFiles)) prs 0 w2
         = (Inr (0 + length (filter (\<lambda>p. reviewed_by E owner repo reviewer p
                                          \<and> common_file E owner repo prFiles p) prs)), w')"
    and coh': "coherent E owner repo w'"
    by blast
  have final: "coherent E owner repo (snd (calculateRelatedFileExperience E owner repo prNumber reviewer w))"
    using assms(1) c1 c2 l coh' by (simp add: calculateRelatedFileExperience_def)
  have main: "fst (calculateRelatedFileExperience E owner repo prNumber reviewer w)
           = Inr (length (filter (\<lambda>p. reviewed_by E owner repo reviewer p
                                      \<and> common_file E owner repo prFiles p) prs))"
    using assms(1) c1 c2 l by (simp add: calculateRelatedFileExperience_def)
  have "filter (\<lambda>p. reviewed_by E owner repo reviewer p \<and> common_file E owner repo prFiles p) prs = []"
    if "\<forall>p \<in> set prs. \<not> common_file E owner repo prFiles p"
    using that by (simp add: filter_empty_conv)
  with main final show ?thesis by simp
qed

lemma coherent_initial: "coherent E owner repo initial_World"
  by (simp add: coherent_def initial_World_def new_CacheStore_def)

lemma acme_token: "getOctokit acme = Inr ()"
  by (simp add: getOctokit_def acme_def)

lemma acme_pulls:
  "pulls_list acme ''acme'' ''widgets'' State_all_updated_desc_100 = Inr [pr_A, pr_B, pr_C, pr_old]"
  by (simp add: acme_def)

lemma acme_listReviews: "pulls_listReviews acme ''acme'' ''widgets'' n = acme_reviews n"
  by (simp add: acme_def)

lemma acme_listFiles: "pulls_listFiles acme ''acme'' ''widgets'' n = acme_files n"
  by (simp add: acme_def)

lemma acme_numbers:
  "pr_number pr_A = 1" "pr_number pr_B = 2" "pr_number pr_C = 3" "pr_number pr_old = 4"
  by (simp_all add: pr_A_def pr_B_def pr_C_def pr_old_def)

lemma acme_reviews_ok:
  "\<forall>p \<in> set [pr_A, pr_B, pr_C, pr_old]. \<exists>rs. pulls_listReviews acme ''acme'' ''widgets'' (pr_number p) = Inr rs"
  by (simp add: acme_listReviews acme_numbers acme_reviews_def)

lemma acme_files_ok:
  "\<forall>p \<in> set [pr_A, pr_B, pr_C, pr_old]. reviewed_by acme ''acme'' ''widgets'' reviewer p \<longrightarrow>
     (\<exists>fs. pulls_listFiles acme ''acme'' ''widgets'' (pr_number p) = Inr fs)"
  by (simp add: acme_listFiles acme_numbers acme_files_def)

lemma acme_reviewed_by:
  "reviewed_by acme ''acme'' ''widgets'' reviewer pr_A \<longleftrightarrow> reviewer = ''sam''"
  "reviewed_by acme ''acme'' ''widgets'' reviewer pr_B \<longleftrightarrow> reviewer = ''rita''"
  "reviewed_by acme ''acme'' ''widgets'' reviewer pr_C \<longleftrightarrow> reviewer = ''rita''"
  "reviewed_by acme ''acme'' ''widgets'' reviewer pr_old \<longleftrightarrow> reviewer = ''rita''"
  by (auto simp: reviewed_by_def reviews_of_def acme_listReviews acme_numbers acme_reviews_def)

lemma acme_common_file_1:
  "\<not> common_file acme ''acme'' ''widgets'' [\<lparr>filename = ''x.ts''\<rparr>, \<lparr>filename = ''y.ts''\<rparr>] pr_C"
  "\<not> common_file acme ''acme'' ''widgets'' [\<lparr>filename = ''x.ts''\<rparr>, \<lparr>filename = ''y.ts''\<rparr>] pr_old"
  "common_file acme ''acme'' ''widgets'' [\<lparr>filename = ''x.ts''\<rparr>, \<lparr>filename = ''y.ts''\<rparr>] pr_B"
  "common_file acme ''acme'' ''widgets'' [\<lparr>filename = ''x.ts''\<rparr>, \<lparr>filename = ''y.ts''\<rparr>] pr_A"
  by (simp_all add: common_file_def files_of_def acme_listFiles acme_numbers acme_files_def)

lemma acme_common_file_3:
  "\<not> common_file acme ''acme'' ''widgets'' [\<lparr>filename = ''q.ts''\<rparr>] pr_A"
  by (simp_all add: common_file_def files_of_def acme_listFiles acme_numbers acme_files_def)

theorem calculateRelatedFileExperience_count_witness:
  "fst (calculateRelatedFileExperience acme ''acme'' ''widgets'' 1 ''rita'' initial_World) = Inr 1
   \<and> fst (calculateRelatedFileExperience acme ''acme'' ''widgets'' 1 ''sam'' initial_World) = Inr 1
   \<and> fst (calculateRelatedFileExperience acme ''acme'' ''widgets'' 3 ''sam'' initial_World) = Inr 0"
proof -
  have f1: "pulls_listFiles acme ''acme'' ''widgets'' 1 = Inr [\<lparr>filename = ''x.ts''\<rparr>, \<lparr>filename = ''y.ts''\<rparr>]"
    by (simp add: acme_listFiles acme_files_def)
  have f3: "pulls_listFiles acme ''acme'' ''widgets'' 3 = Inr [\<lparr>filename = ''q.ts''\<rparr>]"
    by (simp add: acme_listFiles acme_files_def)
  have "fst (calculateRelatedFileExperience acme ''acme'' ''widgets'' 1 ''rita'' initial_World) = Inr 1"
    using calculateRelatedFileExperience_count [OF acme_token coherent_initial f1 acme_pulls
        acme_reviews_ok acme_files_ok, of "''rita''"]
    by (simp add: acme_reviewed_by acme_common_file_1)
  moreover have "fst (calculateRelatedFileExperience acme ''acme'' ''widgets'' 1 ''sam'' initial_World) = Inr 1"
    using calculateRelatedFileExperience_count [OF acme_token coherent_initial f1 acme_pulls
        acme_reviews_ok acme_files_ok, of "''sam''"]
    by (simp add: acme_reviewed_by acme_common_file_1)
  moreover have "fst (calculateRelatedFileExperience acme ''acme'' ''widgets'' 3 ''sam'' initial_World) = Inr 0"
    using calculateRelatedFileExperience_count [OF acme_token coherent_initial f3 acme_pulls
        acme_reviews_ok acme_files_ok, of "''sam''"]
    by (simp add: acme_reviewed_by acme_common_file_3)
  ultimately show ?thesis by blast
qed

subsection \<open>getReviewHistory\<close>

lemma js_sub_int:
  "\<bar>a - b\<bar> < 2 ^ 53 \<Longrightarrow> js_sub (of_int a) (of_int b) = of_int (a - b)"
  using fl_of_int [of "a - b"] by (simp add: js_sub_def)

lemma js_add_int:
  "\<bar>a + b\<bar> < 2 ^ 53 \<Longrightarrow> js_add (of_int a) (of_int b) = of_int (a + b)"
  using fl_of_int [of "a + b"] by (simp add: js_add_def)

lemma js_add_zero_int: "\<bar>a\<bar> < 2 ^ 53 \<Longrightarrow> js_add 0 (of_int a) = of_int a"
  using js_add_int [of 0 a] by simp

lemma js_divide_zero_zero: "js_divide 0 0 = NaN"
  by (simp add: js_divide_def)

lemma js_divide_one:
  assumes "\<bar>a\<bar> < 2 ^ 53"
  shows "js_divide (of_int a) 1 = Num (of_int a)"
proof -
  from assms have "\<bar>of_int a :: real\<bar> < 2 ^ 53"
    by (metis of_int_abs of_int_less_iff of_int_numeral of_int_power)
  then have "js_round (of_int a) = Num (fl (of_int a))" by (rule js_round_small)
  with assms show ?thesis by (simp add: js_divide_def fl_of_int)
qed

lemma reviewerReviews_loop_ok:
  assumes "\<forall>review \<in> set rvs. \<exists>cs. pulls_listReviewComments E owner repo (pr_number p) (rv_id review) = Inr cs"
  shows "\<exists>acc'. reviewerReviews_loop E owner repo p rvs acc = Inr acc'
           \<and> length (acc_reviews acc') = length (acc_reviews acc) + length rvs
           \<and> acc_totalResponseTime acc'
               = foldl (\<lambda>a review. js_add a (responseTime E p review))
                   (acc_totalResponseTime acc) rvs"
  using assms
proof (induction rvs arbitrary: acc)
  case Nil
  then show ?case by simp
next
  case (Cons review rvs)
  from Cons.prems obtain cs where
    cs: "pulls_listReviewComments E owner repo (pr_number p) (rv_id review) = Inr cs" by auto
  let ?acc = "\<lparr>acc_reviews = acc_reviews acc @
                   [\<lparr>re_prNumber = pr_number p,
                     re_submittedAt = (case rv_submitted_at review of None \<Rightarrow> [] | Some s \<Rightarrow> s),
                     re_comments = map (formatComment p) cs\<rparr>],
                 acc_totalComments = acc_totalComments acc + length (map (formatComment p) cs),
                 acc_totalResponseTime =
                   js_add (acc_totalResponseTime acc) (responseTime E p review),
                 acc_lastReviewAt = update_lastReviewAt (acc_lastReviewAt acc) (rv_submitted_at review)\<rparr>"
  have step: "reviewerReviews_loop E owner repo p (review # rvs) acc
              = reviewerReviews_loop E owner repo p rvs ?acc"
    using cs by (simp add: Let_def)
  have "\<forall>review \<in> set rvs. \<exists>cs. pulls_listReviewComments E owner repo (pr_number p) (rv_id review) = Inr cs"
    using Cons.prems by simp
  from Cons.IH [OF this, of ?acc] obtain acc' where
    "reviewerReviews_loop E owner repo p rvs ?acc = Inr acc'"
    "length (acc_reviews acc') = length (acc_reviews ?acc) + length rvs"
    "acc_totalResponseTime acc'
       = foldl (\<lambda>a review. js_add a (responseTime E p review)) (acc_totalResponseTime ?acc) rvs"
    by blast
  with step show ?case by simp
qed

lemma matched_reviews_Nil [simp]: "matched_reviews E owner repo reviewer since [] = []"
  by (simp add: matched_reviews_def)

lemma matched_reviews_Cons:
  "matched_reviews E owner repo reviewer since (p # prs) =
     (if Date_getTime E (pr_created_at p) < since then []
      else map (Pair p) (filter (\<lambda>review. rv_user_login review = Some reviewer)
                           (reviews_of E owner repo (pr_number p))))
     @ matched_reviews E owner repo reviewer since prs"
  by (simp add: matched_reviews_def)


lemma foldl_Pair:
  "foldl (\<lambda>a (p, review). f a p review) a (map (Pair p) rvs)
   = foldl (\<lambda>a review. f a p review) a rvs"
  by (induction rvs arbitrary: a) simp_all

lemma pullRequests_loop_ok:
  assumes "coherent E owner repo w"
    and "\<forall>p \<in> set prs. \<not> Date_getTime E (pr_created_at p) < since \<longrightarrow>
           (\<exists>rs. pulls_listReviews E owner repo (pr_number p) = Inr rs)"
    and "\<forall>(p, review) \<in> set (matched_reviews E owner repo reviewer since prs).
           \<exists>cs. pulls_listReviewComments E owner repo (pr_number p) (rv_id review) = Inr cs"
  shows "\<exists>acc' w'. pullRequests_loop E owner repo reviewer since prs acc w = (Inr acc', w')
           \<and> coherent E owner repo w'
           \<and> length (acc_reviews acc')
               = length (acc_reviews acc) + length (matched_reviews E owner repo reviewer since prs)
           \<and> acc_totalResponseTime acc'
               = foldl (\<lambda>a (p, review). js_add a (responseTime E p review))
                   (acc_totalResponseTime acc)
                   (matched_reviews E owner repo reviewer since prs)"
  using assms
proof (induction prs arbitrary: acc w)
  case Nil
  then show ?case by simp
next
  case (Cons p prs)
  have rest2: "\<forall>p \<in> set prs. \<not> Date_getTime E (pr_created_at p) < since \<longrightarrow>
           (\<exists>rs. pulls_listReviews E owner repo (pr_number p) = Inr rs)"
    using Cons.prems(2) by simp
  have rest3: "\<forall>(p, review) \<in> set (matched_reviews E owner repo reviewer since prs).
           \<exists>cs. pulls_listReviewComments E owner repo (pr_number p) (rv_id review) = Inr cs"
    using Cons.prems(3) by (simp add: matched_reviews_Cons)
  show ?case
  proof (cases "Date_getTime E (pr_created_at p) < since")
    case True
    from Cons.IH [OF Cons.prems(1) rest2 rest3, of acc] True show ?thesis
      by (simp add: matched_reviews_Cons)
  next
    case False
    with Cons.prems(2) obtain rs where rs: "pulls_listReviews E owner repo (pr_number p) = Inr rs"
      by auto
    from cached_listReviews_ok [OF Cons.prems(1) rs] obtain w1 where
      c1: "cached_listReviews E owner repo (pr_number p) w = (Inr rs, w1)"
      and coh1: "coherent E owner repo w1" by blast
    let ?mine = "filter (\<lambda>review. rv_user_login review = Some reviewer) rs"
    have m: "matched_reviews E owner repo reviewer since (p # prs)
             = map (Pair p) ?mine @ matched_reviews E owner repo reviewer since prs"
      using False reviews_of_Inr [OF rs] by (simp add: matched_reviews_Cons)
    have "\<forall>review \<in> set ?mine. \<exists>cs. pulls_listReviewComments E owner repo (pr_number p) (rv_id review) = Inr cs"
    proof
      fix review assume "review \<in> set ?mine"
      then have "(p, review) \<in> set (matched_reviews E owner repo reviewer since (p # prs))"
        unfolding m by simp
      with Cons.prems(3) show "\<exists>cs. pulls_listReviewComments E owner repo (pr_number p) (rv_id review) = Inr cs"
        by fastforce
    qed
    from reviewerReviews_loop_ok [OF this, of acc] obtain acc1 where
      l1: "reviewerReviews_loop E owner repo p ?mine acc = Inr acc1"
      and n1: "length (acc_reviews acc1) = length (acc_reviews acc) + length ?mine"
      and t1: "acc_totalResponseTime acc1
               = foldl (\<lambda>a review. js_add a (responseTime E p review))
                   (acc_totalResponseTime acc) ?mine"
      by blast
    from Cons.IH [OF coh1 rest2 rest3, of acc1] obtain acc' w' where
      l2: "pullRequests_loop E owner repo reviewer since prs acc1 w1 = (Inr acc', w')"
      and coh': "coherent E owner repo w'"
      and n2: "length (acc_reviews acc')
               = length (acc_reviews acc1) + length (matched_reviews E owner repo reviewer since prs)"
      and t2: "acc_totalResponseTime acc'
               = foldl (\<lambda>a (p, review). js_add a (responseTime E p review))
                   (acc_totalResponseTime acc1)
                   (matched_reviews E owner repo reviewer since prs)"
      by blast
    have "pullRequests_loop E owner repo reviewer since (p # prs) acc w = (Inr acc', w')"
      using False c1 l1 l2 by simp
    moreover have "length (acc_reviews acc')
               = length (acc_reviews acc) + length (matched_reviews E owner repo reviewer since (p # prs))"
      using n1 n2 unfolding m by simp
    moreover have "acc_totalResponseTime acc'
               = foldl (\<lambda>a (p, review). js_add a (responseTime E p review))
                   (acc_totalResponseTime acc)
                   (matched_reviews E owner repo reviewer since (p # prs))"
      unfolding m t2 t1 foldl_append
      using foldl_Pair [of "\<lambda>a p review. js_add a (responseTime E p review)"
          "acc_totalResponseTime acc" p ?mine]
      by simp
    ultimately show ?thesis using coh' by blast
  qed
qed

lemma responseTime_absent: "rv_submitted_at review = None \<Longrightarrow> responseTime E p review = 0"
  by (simp add: responseTime_def js_sub_def)

lemma responseTime_present:
  assumes "rv_submitted_at review = Some s"
    and "\<bar>Date_getTime E s - Date_getTime E (pr_created_at p)\<bar> < 2 ^ 53"
  shows "responseTime E p review = of_int (Date_getTime E s - Date_getTime E (pr_created_at p))"
  using assms(1) js_sub_int [OF assms(2)] by (simp add: responseTime_def)

lemma getReviewHistory_ok:
  assumes tok: "getOctokit E = Inr ()"
    and coh: "coherent E owner repo w"
    and prs: "pulls_list E owner repo State_all_updated_desc_100 = Inr prs"
    and rvs: "\<forall>p \<in> set prs. \<not> Date_getTime E (pr_created_at p) < cutoff E since w \<longrightarrow>
           (\<exists>rs. pulls_listReviews E owner repo (pr_number p) = Inr rs)"
    and cms: "\<forall>(p, review) \<in> set (matched_reviews E owner repo reviewer (cutoff E since w) prs).
           \<exists>cs. pulls_listReviewComments E owner repo (pr_number p) (rv_id review) = Inr cs"
  shows "\<exists>acc w'. getReviewHistory E owner repo reviewer since w
             = (Inr \<lparr>reviewer_login = reviewer, reviewer_name = None,
                     reviews = acc_reviews acc, stats = make_stats acc\<rparr>, w')
           \<and> coherent E owner repo w'
           \<and> length (acc_reviews acc)
               = length (matched_reviews E owner repo reviewer (cutoff E since w) prs)
           \<and> acc_totalResponseTime acc
               = total_response E (matched_reviews E owner repo reviewer (cutoff E since w) prs)"
proof -
  let ?w0 = "case since of Some t \<Rightarrow> w | None \<Rightarrow> w\<lparr>clock_reads := Suc (clock_reads w)\<rparr>"
  let ?acc0 = "\<lparr>acc_reviews = [], acc_totalComments = 0, acc_totalResponseTime = 0,
                acc_lastReviewAt = []\<rparr>"
  have coh0: "coherent E owner repo ?w0"
    using coh by (cases since) (simp_all add: coherent_def)
  from cached_pulls_list_ok [OF coh0 prs] obtain w1 where
    c1: "cached_pulls_list E owner repo ?w0 = (Inr prs, w1)"
    and coh1: "coherent E owner repo w1" by blast
  from pullRequests_loop_ok [OF coh1 rvs cms, of ?acc0] obtain acc w' where
    l: "pullRequests_loop E owner repo reviewer (cutoff E since w) prs ?acc0 w1 = (Inr acc, w')"
    and coh': "coherent E owner repo w'"
    and n: "length (acc_reviews acc)
            = length (acc_reviews ?acc0) + length (matched_reviews E owner repo reviewer (cutoff E since w) prs)"
    and t: "acc_totalResponseTime acc
            = foldl (\<lambda>a (p, review). js_add a (responseTime E p review))
                (acc_totalResponseTime ?acc0)
                (matched_reviews E owner repo reviewer (cutoff E since w) prs)"
    by blast
  have "getReviewHistory E owner repo reviewer since w
        = (Inr \<lparr>reviewer_login = reviewer, reviewer_name = None,
                reviews = acc_reviews acc, stats = make_stats acc\<rparr>, w')"
    using tok c1 l by (cases since) (simp_all add: getReviewHistory_def cutoff_def)
  with n t coh' show ?thesis by (auto simp: total_response_def)
qed

text \<open>
  Claim C8. With the token set, caches that agree with the endpoints, and the endpoints
  answering for the list, for each pull request inside the window and for each matched
  review, \<^verbatim>\<open>getReviewHistory\<close> returns (leaving caches that agree with the
  endpoints) a history in which: the number of reviews is the number of matched
  reviews; with no matched review the average response time is the number 0, where
  the quotient of the total by the number of reviews, had it been computed, would be
  NaN; with exactly one matched review, submitted at \<open>s\<close>, the average is exactly the
  time \<open>T\<close> from the creation of its pull request to \<open>s\<close> (a whole number of
  milliseconds below \<open>2^53\<close>, as every difference of two dates less than 285000 years
  apart is); with one matched review or more the average is the quotient, in doubles,
  of the total of the response times by their number; and a review without a
  submission time has response time 0.
\<close>

theorem getReviewHistory_average:
  assumes "getOctokit E = Inr ()"
    and "coherent E owner repo w"
    and "pulls_list E owner repo State_all_updated_desc_100 = Inr prs"
    and "\<forall>p \<in> set prs. \<not> Date_getTime E (pr_created_at p) < cutoff E since w \<longrightarrow>
           (\<exists>rs. pulls_listReviews E owner repo (pr_number p) = Inr rs)"
    and "\<forall>(p, review) \<in> set (matched_reviews E owner repo reviewer (cutoff E since w) prs).
           \<exists>cs. pulls_listReviewComments E owner repo (pr_number p) (rv_id review) = Inr cs"
  shows "\<exists>h w'. getReviewHistory E owner repo reviewer since w = (Inr h, w')
           \<and> coherent E owner repo w'
           \<and> totalReviews (stats h)
               = length (matched_reviews E owner repo reviewer (cutoff E since w) prs)
           \<and> (matched_reviews E owner repo reviewer (cutoff E since w) prs = []
                \<longrightarrow> averageResponseTime (stats h) = Num 0
                    \<and> js_divide
                         (total_response E
                            (matched_reviews E owner repo reviewer (cutoff E since w) prs))
                         (real (totalReviews (stats h))) = NaN)
           \<and> (\<forall>p review s.
                 matched_reviews E owner repo reviewer (cutoff E since w) prs = [(p, review)]
                 \<and> rv_submitted_at review = Some s
                 \<and> \<bar>Date_getTime E s - Date_getTime E (pr_created_at p)\<bar> < 2 ^ 53
                 \<longrightarrow> averageResponseTime (stats h)
                      = Num (of_int (Date_getTime E s - Date_getTime E (pr_created_at p))))
           \<and> (matched_reviews E owner repo reviewer (cutoff E since w) prs \<noteq> []
                \<longrightarrow> averageResponseTime (stats h)
                    = js_divide
                        (total_response E
                           (matched_reviews E owner repo reviewer (cutoff E since w) prs))
                        (real (length
                           (matched_reviews E owner repo reviewer (cutoff E since w) prs))))
           \<and> (\<forall>p review. rv_submitted_at review = None \<longrightarrow> responseTime E p review = 0)"
proof -
  let ?M = "matched_reviews E owner repo reviewer (cutoff E since w) prs"
  from getReviewHistory_ok [OF assms] obtain acc w' where
    g: "getReviewHistory E owner repo reviewer since w
          = (Inr \<lparr>reviewer_login = reviewer, reviewer_name = None,
                  reviews = acc_reviews acc, stats = make_stats acc\<rparr>, w')"
    and coh': "coherent E owner repo w'"
    and n: "length (acc_reviews acc) = length ?M"
    and t: "acc_totalResponseTime acc = total_response E ?M"
    by blast
  have total: "totalReviews (make_stats acc) = length ?M"
    using n by (simp add: make_stats_def)
  have avg: "averageResponseTime (make_stats acc)
             = (if ?M = [] then Num 0
                else js_divide (total_response E ?M) (real (length ?M)))"
    using n t by (simp add: make_stats_def)
  have zero: "?M = [] \<longrightarrow> averageResponseTime (make_stats acc) = Num 0
                \<and> js_divide (total_response E ?M) (real (totalReviews (make_stats acc))) = NaN"
    using avg total by (simp add: total_response_def js_divide_zero_zero)
  have one: "\<forall>p review s. ?M = [(p, review)] \<and> rv_submitted_at review = Some s
               \<and> \<bar>Date_getTime E s - Date_getTime E (pr_created_at p)\<bar> < 2 ^ 53
               \<longrightarrow> averageResponseTime (make_stats acc)
                    = Num (of_int (Date_getTime E s - Date_getTime E (pr_created_at p)))"
  proof (intro allI impI)
    fix p review s
    assume a: "?M = [(p, review)] \<and> rv_submitted_at review = Some s
               \<and> \<bar>Date_getTime E s - Date_getTime E (pr_created_at p)\<bar> < 2 ^ 53"
    let ?T = "Date_getTime E s - Date_getTime E (pr_created_at p)"
    from a have M: "?M = [(p, review)]" and s: "rv_submitted_at review = Some s"
      and b: "\<bar>?T\<bar> < 2 ^ 53" by simp_all
    have r: "responseTime E p review = of_int ?T" by (rule responseTime_present [OF s b])
    have "total_response E ?M = js_add 0 (of_int ?T)"
      unfolding M by (simp add: total_response_def r)
    then have "total_response E ?M = of_int ?T" by (simp only: js_add_zero_int [OF b])
    moreover have "averageResponseTime (make_stats acc) = js_divide (total_response E ?M) 1"
      using avg unfolding M by simp
    ultimately show "averageResponseTime (make_stats acc) = Num (of_int ?T)"
      by (simp only: js_divide_one [OF b])
  qed
  have quot: "?M \<noteq> [] \<longrightarrow> averageResponseTime (make_stats acc)
                = js_divide (total_response E ?M) (real (length ?M))"
    using avg by simp
  have absent: "\<forall>p review. rv_submitted_at review = None \<longrightarrow> responseTime E p review = 0"
    by (simp add: responseTime_absent)
  from g coh' total zero one quot absent show ?thesis by simp
qed

lemma acme_cutoff: "cutoff acme None initial_World = 1712188800000"
  by (simp add: cutoff_def acme_def initial_World_def)

lemma acme_created:
  "Date_getTime acme (pr_created_at pr_A) = 1714557600000"
  "Date_getTime acme (pr_created_at pr_B) = 1714644000000"
  "Date_getTime acme (pr_created_at pr_C) = 1714730400000"
  "Date_getTime acme (pr_created_at pr_old) = 1709287200000"
  by (simp_all add: acme_def acme_getTime_def pr_A_def pr_B_def pr_C_def pr_old_def)

lemma acme_reviews_of:
  "reviews_of acme ''acme'' ''widgets'' (pr_number pr_A)
     = [\<lparr>rv_id = 11, rv_user_login = Some ''sam'', rv_submitted_at = Some ''2024-05-01T10:45:00Z''\<rparr>]"
  "reviews_of acme ''acme'' ''widgets'' (pr_number pr_B)
     = [\<lparr>rv_id = 21, rv_user_login = Some ''rita'', rv_submitted_at = Some ''2024-05-02T10:30:00Z''\<rparr>]"
  "reviews_of acme ''acme'' ''widgets'' (pr_number pr_C)
     = [\<lparr>rv_id = 31, rv_user_login = None, rv_submitted_at = None\<rparr>,
        \<lparr>rv_id = 32, rv_user_login = Some ''rita'', rv_submitted_at = None\<rparr>]"
  by (simp_all add: reviews_of_def acme_listReviews acme_numbers acme_reviews_def)

lemma acme_matched_sam:
  "matched_reviews acme ''acme'' ''widgets'' ''sam'' (cutoff acme None initial_World)
     [pr_A, pr_B, pr_C, pr_old]
   = [(pr_A, \<lparr>rv_id = 11, rv_user_login = Some ''sam'',
               rv_submitted_at = Some ''2024-05-01T10:45:00Z''\<rparr>)]"
  by (simp add: matched_reviews_def acme_cutoff acme_created acme_reviews_of)

lemma acme_matched_rita:
  "matched_reviews acme ''acme'' ''widgets'' ''rita'' (cutoff acme None initial_World)
     [pr_A, pr_B, pr_C, pr_old]
   = [(pr_B, \<lparr>rv_id = 21, rv_user_login = Some ''rita'',
               rv_submitted_at = Some ''2024-05-02T10:30:00Z''\<rparr>),
      (pr_C, \<lparr>rv_id = 32, rv_user_login = Some ''rita'', rv_submitted_at = None\<rparr>)]"
  by (simp add: matched_reviews_def acme_cutoff acme_created acme_reviews_of)

lemma acme_matched_zed:
  "matched_reviews acme ''acme'' ''widgets'' ''zed'' (cutoff acme None initial_World)
     [pr_A, pr_B, pr_C, pr_old] = []"
  by (simp add: matched_reviews_def acme_cutoff acme_created acme_reviews_of)

lemma acme_window_reviews_ok:
  "\<forall>p \<in> set [pr_A, pr_B, pr_C, pr_old].
     \<not> Date_getTime acme (pr_created_at p) < cutoff acme None initial_World \<longrightarrow>
     (\<exists>rs. pulls_listReviews acme ''acme'' ''widgets'' (pr_number p) = Inr rs)"
  using acme_reviews_ok by simp

lemma acme_comments_ok:
  "\<forall>(p, review) \<in> set (matched_reviews acme ''acme'' ''widgets'' reviewer
                          (cutoff acme None initial_World) [pr_A, pr_B, pr_C, pr_old]).
     \<exists>cs. pulls_listReviewComments acme ''acme'' ''widgets'' (pr_number p) (rv_id review) = Inr cs"
  by (simp add: acme_def split_beta)

lemma acme_times:
  "Date_getTime acme ''2024-05-01T10:45:00Z'' = 1714560300000"
  "Date_getTime acme ''2024-05-02T10:30:00Z'' = 1714645800000"
  by (simp_all add: acme_def acme_getTime_def)


lemma acme_response_sam:
  "responseTime acme pr_A \<lparr>rv_id = 11, rv_user_login = Some ''sam'',
      rv_submitted_at = Some ''2024-05-01T10:45:00Z''\<rparr> = 2700000"
  using responseTime_present [of "\<lparr>rv_id = 11, rv_user_login = Some ''sam'',
      rv_submitted_at = Some ''2024-05-01T10:45:00Z''\<rparr>" "''2024-05-01T10:45:00Z''" acme pr_A]
  by (simp add: acme_times acme_created)

lemma acme_response_rita:
  "responseTime acme pr_B \<lparr>rv_id = 21, rv_user_login = Some ''rita'',
      rv_submitted_at = Some ''2024-05-02T10:30:00Z''\<rparr> = 1800000"
  "responseTime acme pr_C \<lparr>rv_id = 32, rv_user_login = Some ''rita'', rv_submitted_at = None\<rparr> = 0"
  using responseTime_present [of "\<lparr>rv_id = 21, rv_user_login = Some ''rita'',
      rv_submitted_at = Some ''2024-05-02T10:30:00Z''\<rparr>" "''2024-05-02T10:30:00Z''" acme pr_B]
  by (simp_all add: acme_times acme_created responseTime_absent)

lemma acme_total_rita:
  "total_response acme
     [(pr_B, \<lparr>rv_id = 21, rv_user_login = Some ''rita'',
               rv_submitted_at = Some ''2024-05-02T10:30:00Z''\<rparr>),
      (pr_C, \<lparr>rv_id = 32, rv_user_login = Some ''rita'', rv_submitted_at = None\<rparr>)]
   = 1800000"
proof -
  have 1: "js_add 0 1800000 = 1800000" using js_add_int [of 0 1800000] by simp
  have 2: "js_add 1800000 0 = 1800000" using js_add_int [of 1800000 0] by simp
  show ?thesis by (simp add: total_response_def acme_response_rita 1 2)
qed

lemma js_divide_1800000_2: "js_divide 1800000 2 = Num 900000"
proof -
  have "js_round 900000 = Num (fl 900000)" by (rule js_round_small) simp
  moreover have "fl 900000 = 900000" using fl_of_int [of 900000] by simp
  ultimately show ?thesis by (simp add: js_divide_def)
qed

theorem getReviewHistory_average_witness:
  "(\<exists>h w'. getReviewHistory acme ''acme'' ''widgets'' ''sam'' None initial_World = (Inr h, w')
       \<and> totalReviews (stats h) = 1 \<and> averageResponseTime (stats h) = Num 2700000)
   \<and> (\<exists>h w'. getReviewHistory acme ''acme'' ''widgets'' ''zed'' None initial_World = (Inr h, w')
       \<and> totalReviews (stats h) = 0 \<and> averageResponseTime (stats h) = Num 0)
   \<and> (\<exists>h w'. getReviewHistory acme ''acme'' ''widgets'' ''rita'' None initial_World = (Inr h, w')
       \<and> totalReviews (stats h) = 2 \<and> averageResponseTime (stats h) = Num 900000)"
proof (intro conjI)
  from getReviewHistory_average [OF acme_token coherent_initial acme_pulls
      acme_window_reviews_ok acme_comments_ok, of "''sam''"]
  obtain h w' where
    g: "getReviewHistory acme ''acme'' ''widgets'' ''sam'' None initial_World = (Inr h, w')"
    and n: "totalReviews (stats h) = 1"
    and one: "\<forall>p review s.
                 [(pr_A, \<lparr>rv_id = 11, rv_user_login = Some ''sam'',
                           rv_submitted_at = Some ''2024-05-01T10:45:00Z''\<rparr>)] = [(p, review)]
                 \<and> rv_submitted_at review = Some s
                 \<and> \<bar>Date_getTime acme s - Date_getTime acme (pr_created_at p)\<bar> < 2 ^ 53
                 \<longrightarrow> averageResponseTime (stats h)
                      = Num (of_int (Date_getTime acme s - Date_getTime acme (pr_created_at p)))"
    unfolding acme_matched_sam by auto
  have "\<bar>Date_getTime acme ''2024-05-01T10:45:00Z'' - Date_getTime acme (pr_created_at pr_A)\<bar>
        < 2 ^ 53"
    by (simp add: acme_times acme_created)
  with one have "averageResponseTime (stats h)
        = Num (of_int (Date_getTime acme ''2024-05-01T10:45:00Z''
                       - Date_getTime acme (pr_created_at pr_A)))"
    by simp
  then have "averageResponseTime (stats h) = Num 2700000"
    by (simp add: acme_times acme_created)
  with g n show "\<exists>h w'. getReviewHistory acme ''acme'' ''widgets'' ''sam'' None initial_World = (Inr h, w')
       \<and> totalReviews (stats h) = 1 \<and> averageResponseTime (stats h) = Num 2700000"
    by blast
next
  from getReviewHistory_average [OF acme_token coherent_initial acme_pulls
      acme_window_reviews_ok acme_comments_ok, of "''zed''"]
  show "\<exists>h w'. getReviewHistory acme ''acme'' ''widgets'' ''zed'' None initial_World = (Inr h, w')
       \<and> totalReviews (stats h) = 0 \<and> averageResponseTime (stats h) = Num 0"
    unfolding acme_matched_zed by auto
next
  from getReviewHistory_average [OF acme_token coherent_initial acme_pulls
      acme_window_reviews_ok acme_comments_ok, of "''rita''"]
  obtain h w' where
    g: "getReviewHistory acme ''acme'' ''widgets'' ''rita'' None initial_World = (Inr h, w')"
    and n: "totalReviews (stats h) = 2"
    and quot: "averageResponseTime (stats h)
        = js_divide (total_response acme
            [(pr_B, \<lparr>rv_id = 21, rv_user_login = Some ''rita'',
                      rv_submitted_at = Some ''2024-05-02T10:30:00Z''\<rparr>),
             (pr_C, \<lparr>rv_id = 32, rv_user_login = Some ''rita'', rv_submitted_at = None\<rparr>)])
            (real (2::nat))"
    unfolding acme_matched_rita by auto
  from quot have "averageResponseTime (stats h) = Num 900000"
    by (simp add: acme_total_rita js_divide_1800000_2)
  with g n show "\<exists>h w'. getReviewHistory acme ''acme'' ''widgets'' ''rita'' None initial_World = (Inr h, w')
       \<and> totalReviews (stats h) = 2 \<and> averageResponseTime (stats h) = Num 900000"
    by blast
qed

section \<open>Properties of the cache store\<close>

lemma get_absent: "cache c k = None \<Longrightarrow> get now c k = (None, c)"
  by (simp add: get_def)

lemma get_fresh:
  "cache c k = Some e \<Longrightarrow> now - timestamp e \<le> ttl c \<Longrightarrow> get now c k = (Some (data e), c)"
  by (simp add: get_def)

lemma get_expired:
  "cache c k = Some e \<Longrightarrow> now - timestamp e > ttl c \<Longrightarrow>
   get now c k = (None, c\<lparr>cache := (cache c)(k := None)\<rparr>)"
  by (simp add: get_def)

text \<open>
  Claim C4. After \<open>set(k, v)\<close> at time \<open>t0\<close>, a \<open>get(k)\<close> at a time \<open>now\<close> with
  \<open>now - t0 \<le> ttl\<close> returns exactly \<open>v\<close> and leaves the store as it is; a \<open>get(k)\<close>
  with \<open>now - t0 > ttl\<close> returns absent and the key is no longer in the store (every other
  key is kept); a \<open>get\<close> on a key that is not stored returns absent and the store is
  unchanged.
\<close>

theorem cache_set_get:
  fixes c :: "'a CacheStore"
  shows "(now - t0 \<le> ttl c \<longrightarrow>
            get now (set_entry t0 c k v) k = (Some v, set_entry t0 c k v))
       \<and> (now - t0 > ttl c \<longrightarrow>
            fst (get now (set_entry t0 c k v) k) = None
          \<and> cache (snd (get now (set_entry t0 c k v) k)) k = None
          \<and> (\<forall>k'. k' \<noteq> k \<longrightarrow> cache (snd (get now (set_entry t0 c k v) k)) k' = cache c k')
          \<and> ttl (snd (get now (set_entry t0 c k v) k)) = ttl c)
       \<and> (cache c k = None \<longrightarrow> get now c k = (None, c))"
  by (simp add: get_def set_entry_def)

theorem cache_set_get_witness:
  "get 1300 (set_entry 1000 (new_CacheStore (Some 300)) ''pr:acme:widgets'' [7::nat]) ''pr:acme:widgets''
     = (Some [7], set_entry 1000 (new_CacheStore (Some 300)) ''pr:acme:widgets'' [7])
   \<and> fst (get 1301 (set_entry 1000 (new_CacheStore (Some 300)) ''pr:acme:widgets'' [7::nat]) ''pr:acme:widgets'') = None
   \<and> cache (snd (get 1301 (set_entry 1000 (new_CacheStore (Some 300)) ''pr:acme:widgets'' [7::nat]) ''pr:acme:widgets''))
        ''pr:acme:widgets'' = None
   \<and> get 5 (new_CacheStore None :: nat list CacheStore) ''pr:acme:widgets''
        = (None, new_CacheStore None)"
  using cache_set_get [of 1300 1000 "new_CacheStore (Some 300) :: nat list CacheStore" "''pr:acme:widgets''" "[7]"]
        cache_set_get [of 1301 1000 "new_CacheStore (Some 300) :: nat list CacheStore" "''pr:acme:widgets''" "[7]"]
        cache_set_get [of 5 0 "new_CacheStore None :: nat list CacheStore" "''pr:acme:widgets''" "[]"]
  by (simp add: new_CacheStore_def)

end
